theory Spec2Isabelle
  imports Main "HOL-Library.Word"
begin

unbundle bit_operations_syntax

section \<open>The arrays (xm_tables.c)\<close>

text \<open>
  An array header points into arena memory, and two headers may point to the same
  storage (\<open>copy_array_hdr_core\<close>), so the memory is explicit: the heap is the list of
  the blocks handed out so far, the address of a block is its position in the list, and
  a block is its bytes. A byte that has not been written since the allocation is
  \<open>None\<close>. A \<open>char *\<close> into a block is the pair of the block and the byte offset;
  the field \<open>elts\<close> always points to the start of a block, so it is the block alone.
  The header itself is a record value (its own allocation is not modelled), and
  \<open>pool\<close> names the arena.

  The fields \<open>elt_size\<close>, \<open>nelts\<close> and \<open>nalloc\<close> are \<open>int\<close> in C. They are
  \<open>int\<close> here, without a bound: a run in which an \<open>int\<close> computation overflows has
  no defined behaviour in C and is outside the model.
\<close>

type_synonym byte = "8 word"
type_synonym heap = "byte option list list"
type_synonym ptr = "nat \<times> nat"

record xm_array_header_t =
  pool :: nat
  elt_size :: int
  nelts :: int
  nalloc :: int
  elts :: nat

text \<open>Modelled from the spec: the arena's \<open>alloc(arena, n_bytes)\<close> "returns
  zero-initialized or uninitialized memory per variant (\<open>alloc_zeroed\<close>,
  \<open>alloc_raw\<close>); never individually freed". \<open>xm_palloc\<close> is the raw variant and
  \<open>xm_pcalloc\<close> the zeroed one; their code is not in the sources. Each call gives a
  new block; running out of memory is not modelled.\<close>

definition xm_palloc :: "heap \<Rightarrow> int \<Rightarrow> heap \<times> nat" where
  "xm_palloc h n = (h @ [replicate (nat n) None], length h)"


text \<open>\<open>memcpy\<close> and \<open>memset\<close> of the C library, and the reads and writes that a
  caller makes through a pointer.\<close>

definition write_at :: "'a list \<Rightarrow> nat \<Rightarrow> 'a list \<Rightarrow> 'a list" where
  "write_at xs off ys = take off xs @ ys @ drop (off + length ys) xs"

definition memcpy :: "heap \<Rightarrow> ptr \<Rightarrow> ptr \<Rightarrow> int \<Rightarrow> heap" where
  "memcpy h dst src n =
     h[fst dst := write_at (h ! fst dst) (snd dst) (take (nat n) (drop (snd src) (h ! fst src)))]"

definition memset :: "heap \<Rightarrow> ptr \<Rightarrow> byte \<Rightarrow> int \<Rightarrow> heap" where
  "memset h dst c n = h[fst dst := write_at (h ! fst dst) (snd dst) (replicate (nat n) (Some c))]"

definition store :: "heap \<Rightarrow> ptr \<Rightarrow> byte list \<Rightarrow> heap" where
  "store h p bs = h[fst p := write_at (h ! fst p) (snd p) (map Some bs)]"

definition load :: "heap \<Rightarrow> ptr \<Rightarrow> nat \<Rightarrow> byte option list" where
  "load h p n = take n (drop (snd p) (h ! fst p))"



text \<open>The push gives the heap, the header and the pointer to the new last element.\<close>

definition xm_array_push :: "heap \<Rightarrow> xm_array_header_t \<Rightarrow> heap \<times> xm_array_header_t \<times> ptr" where
  "xm_array_push h arr =
     (let (h, arr) =
            (if nelts arr = nalloc arr
             then (let new_size = (if nalloc arr \<le> 0 then 1 else nalloc arr * 2);
                       (h, new_data) = xm_palloc h (elt_size arr * new_size);
                       h = memcpy h (new_data, 0) (elts arr, 0) (nalloc arr * elt_size arr);
                       h = memset h (new_data, nat (nalloc arr * elt_size arr)) 0
                             (elt_size arr * (new_size - nalloc arr))
                   in (h, arr\<lparr>elts := new_data, nalloc := new_size\<rparr>))
             else (h, arr));
          arr = arr\<lparr>nelts := nelts arr + 1\<rparr>
      in (h, arr, (elts arr, nat (elt_size arr * (nelts arr - 1)))))"

definition xm_array_push_noclear :: "heap \<Rightarrow> xm_array_header_t \<Rightarrow> heap \<times> xm_array_header_t \<times> ptr" where
  "xm_array_push_noclear h arr =
     (let (h, arr) =
            (if nelts arr = nalloc arr
             then (let new_size = (if nalloc arr \<le> 0 then 1 else nalloc arr * 2);
                       (h, new_data) = xm_palloc h (elt_size arr * new_size);
                       h = memcpy h (new_data, 0) (elts arr, 0) (nalloc arr * elt_size arr)
                   in (h, arr\<lparr>elts := new_data, nalloc := new_size\<rparr>))
             else (h, arr));
          arr = arr\<lparr>nelts := nelts arr + 1\<rparr>
      in (h, arr, (elts arr, nat (elt_size arr * (nelts arr - 1)))))"

definition copy_array_hdr_core :: "xm_array_header_t \<Rightarrow> xm_array_header_t \<Rightarrow> xm_array_header_t" where
  "copy_array_hdr_core res arr =
     res\<lparr>elts := elts arr, elt_size := elt_size arr, nelts := nelts arr, nalloc := nelts arr\<rparr>"

text \<open>\<open>xm_array_copy_hdr\<close>: \<open>raw\<close> is what the memory of the new header held.\<close>

definition xm_array_copy_hdr :: "xm_array_header_t \<Rightarrow> nat \<Rightarrow> xm_array_header_t \<Rightarrow> xm_array_header_t" where
  "xm_array_copy_hdr raw p arr = copy_array_hdr_core (raw\<lparr>pool := p\<rparr>) arr"

text \<open>
  The bytes of the elements in use, and the well-formedness of a header in a heap: its
  block exists and holds at least \<open>nalloc\<close> elements, and \<open>0 \<le> nelts \<le> nalloc\<close>.
\<close>

definition active_bytes :: "heap \<Rightarrow> xm_array_header_t \<Rightarrow> byte option list" where
  "active_bytes h arr = take (nat (nelts arr * elt_size arr)) (h ! elts arr)"

definition array_elt :: "heap \<Rightarrow> xm_array_header_t \<Rightarrow> nat \<Rightarrow> byte option list" where
  "array_elt h arr i = load h (elts arr, nat (elt_size arr * int i)) (nat (elt_size arr))"

definition array_ok :: "heap \<Rightarrow> xm_array_header_t \<Rightarrow> bool" where
  "array_ok h arr \<longleftrightarrow>
     elts arr < length h \<and> 0 \<le> elt_size arr \<and> 0 \<le> nelts arr \<and> nelts arr \<le> nalloc arr \<and>
     nalloc arr * elt_size arr \<le> int (length (h ! elts arr))"

text \<open>A run of pushes with no pop between them: each push is followed by the caller's
  write of the new element. \<open>push\<close> is one of the two push functions.\<close>

fun push_all :: "(heap \<Rightarrow> xm_array_header_t \<Rightarrow> heap \<times> xm_array_header_t \<times> ptr) \<Rightarrow>
    heap \<Rightarrow> xm_array_header_t \<Rightarrow> byte list list \<Rightarrow> heap \<times> xm_array_header_t" where
  "push_all push h arr [] = (h, arr)"
| "push_all push h arr (v # vs) =
     (let (h, arr, p) = push h arr in push_all push (store h p v) arr vs)"

text \<open>The capacity that a full array grows to.\<close>

definition grown :: "xm_array_header_t \<Rightarrow> int" where
  "grown arr = (if nalloc arr \<le> 0 then 1 else nalloc arr * 2)"

text \<open>An array of two-byte elements with room for two, as \<open>xm_array_make\<close> gives it
  on the empty heap, for the examples.\<close>

definition heap2 :: heap where
  "heap2 = [[Some 0, Some 0, Some 0, Some 0]]"

definition arr2 :: xm_array_header_t where
  "arr2 = \<lparr>pool = 0, elt_size = 2, nelts = 0, nalloc = 2, elts = 0\<rparr>"

section \<open>The pool cache (xm_mpool_agent.h)\<close>

text \<open>
  The arena allocator itself (\<open>xm_pool_create\<close>, \<open>xm_pool_reset\<close>, \<open>xm_pool_destroy\<close>) is
  not part of the sources. A pool is a value of an arbitrary type \<open>'p\<close>; the outcome of
  the \<open>i\<close>-th call of \<open>xm_pool_create\<close> is given by a function \<open>create i size\<close>
  (\<open>None\<close> is the NULL of a failed creation), and \<open>xm_pool_reset\<close> is a function
  \<open>reset\<close> on pools. The intrusive list \<open>cache_list\<close> is a list whose head is the most
  recently added pool (\<open>list_add\<close> inserts right after the list head).
  The counters are \<open>uint64_t\<close>.
\<close>

record 'p xm_mpool_agent_t =
  cache_list :: "'p list"
  max_cache_n :: "64 word"
  cur_cache_n :: "64 word"
  pool_size :: "64 word"
  pre_alloc_n :: "64 word"

definition init_body :: "(nat \<Rightarrow> 64 word \<Rightarrow> 'p option) \<Rightarrow> nat \<Rightarrow>
    'p xm_mpool_agent_t \<Rightarrow> 'p xm_mpool_agent_t" where
  "init_body create i mpa =
     (case create i (pool_size mpa) of
        Some mp \<Rightarrow> mpa\<lparr>cur_cache_n := cur_cache_n mpa + 1,
                       cache_list := mp # cache_list mpa\<rparr>
      | None \<Rightarrow> mpa)"

definition xm_mpool_agent_init :: "(nat \<Rightarrow> 64 word \<Rightarrow> 'p option) \<Rightarrow> 64 word \<Rightarrow> 64 word \<Rightarrow>
    64 word \<Rightarrow> 'p xm_mpool_agent_t" where
  "xm_mpool_agent_init create max_cache pool_sz pre_alloc =
     (let mpa = \<lparr>cache_list = [],
                 max_cache_n = (if max_cache = 0 then 100000 else max_cache),
                 cur_cache_n = 0,
                 pool_size = (if pool_sz = 0 then 4096 else pool_sz),
                 pre_alloc_n = (if pre_alloc = 0 then 1000 else pre_alloc)\<rparr>
      in fold (init_body create) [0..<unat (pre_alloc_n mpa)] mpa)"

definition xm_mpool_agent_alloc :: "(64 word \<Rightarrow> 'p option) \<Rightarrow> 'p xm_mpool_agent_t \<Rightarrow>
    'p option \<times> 'p xm_mpool_agent_t" where
  "xm_mpool_agent_alloc create1 mpa =
     (case cache_list mpa of
        mp # rest \<Rightarrow> (Some mp, mpa\<lparr>cache_list := rest, cur_cache_n := cur_cache_n mpa - 1\<rparr>)
      | [] \<Rightarrow> (create1 (pool_size mpa), mpa))"

definition xm_mpool_agent_free :: "('p \<Rightarrow> 'p) \<Rightarrow> 'p xm_mpool_agent_t \<Rightarrow> 'p \<Rightarrow>
    'p xm_mpool_agent_t" where
  "xm_mpool_agent_free reset mpa mp =
     (if cur_cache_n mpa < max_cache_n mpa
      then mpa\<lparr>cache_list := reset mp # cache_list mpa, cur_cache_n := cur_cache_n mpa + 1\<rparr>
      else mpa)"

section \<open>C strings, case-insensitive comparison and the key checksum (xm_tables.c)\<close>

text \<open>
  A C string is the list of its bytes before the terminating NUL (\<open>string\<close> is
  \<open>char list\<close>, a \<open>char\<close> is a byte); a \<open>char *\<close> that may be NULL is a
  \<open>string option\<close>. \<open>cbyte s i\<close> is the byte at offset \<open>i\<close> of the
  NUL-terminated string: the terminator itself at offset \<open>length s\<close>.

  \<open>strcasecmp\<close> is the C library's: it compares the strings byte by byte as
  \<open>unsigned char\<close> after \<open>tolower\<close> (here the "C" locale, which maps only
  \<open>A..Z\<close>), and returns the difference at the first position where they differ.
\<close>

definition cbyte :: "string \<Rightarrow> nat \<Rightarrow> char" where
  "cbyte s i = (if i < length s then s ! i else CHR 0x00)"

definition tolower :: "int \<Rightarrow> int" where
  "tolower c = (if 65 \<le> c \<and> c \<le> 90 then c + 32 else c)"

definition lc :: "char \<Rightarrow> int" where
  "lc c = tolower (of_char c)"

fun strcasecmp :: "string \<Rightarrow> string \<Rightarrow> int" where
  "strcasecmp [] [] = 0"
| "strcasecmp [] (b # bs) = 0 - lc b"
| "strcasecmp (a # as) [] = lc a - 0"
| "strcasecmp (a # as) (b # bs) =
     (if lc a = lc b then strcasecmp as bs else lc a - lc b)"

text \<open>
  \<open>(uint32_t)*k\<close> with \<open>const char *k\<close>: whether plain \<open>char\<close> is signed is the
  compiler's choice, so it is the parameter \<open>sc\<close> of the model (\<open>True\<close>: signed, the
  byte is sign-extended to 32 bits; \<open>False\<close>: unsigned, it is zero-extended).
\<close>

definition char_u32 :: "bool \<Rightarrow> char \<Rightarrow> 32 word" where
  "char_u32 sc c = (if sc then scast (of_char c :: 8 word) else ucast (of_char c :: 8 word))"

definition CASE_MASK :: "32 word" where
  "CASE_MASK = 0xdfdfdfdf"

definition COMPUTE_KEY_CHECKSUM :: "bool \<Rightarrow> string \<Rightarrow> 32 word" where
  "COMPUTE_KEY_CHECKSUM sc key =
     (let c = char_u32 sc (cbyte key 0);
          checksum = c;
          checksum = push_bit 8 checksum;
          (c, checksum) = (if c \<noteq> 0
                           then (let c = char_u32 sc (cbyte key 1) in (c, checksum OR c))
                           else (c, checksum));
          checksum = push_bit 8 checksum;
          (c, checksum) = (if c \<noteq> 0
                           then (let c = char_u32 sc (cbyte key 2) in (c, checksum OR c))
                           else (c, checksum));
          checksum = push_bit 8 checksum;
          (c, checksum) = (if c \<noteq> 0
                           then (let c = char_u32 sc (cbyte key 3) in (c, checksum OR c))
                           else (c, checksum))
      in checksum AND CASE_MASK)"

definition TABLE_HASH :: "string \<Rightarrow> nat" where
  "TABLE_HASH key = unat ((0x1f :: 8 word) AND of_char (cbyte key 0))"

text \<open>Auxiliary notions for the proofs about the checksum: the four values that the
  macro reads into \<open>c\<close>, and the way it packs them.\<close>

fun cseq :: "nat \<Rightarrow> bool \<Rightarrow> string \<Rightarrow> 32 word list" where
  "cseq 0 sc k = []"
| "cseq (Suc n) sc [] = replicate (Suc n) 0"
| "cseq (Suc n) sc (a # as) =
     (if a = CHR 0x00 then replicate (Suc n) 0 else char_u32 sc a # cseq n sc as)"

definition cks4 :: "32 word \<Rightarrow> 32 word \<Rightarrow> 32 word \<Rightarrow> 32 word \<Rightarrow> 32 word" where
  "cks4 c0 c1 c2 c3 =
     (push_bit 8 (push_bit 8 (push_bit 8 c0 OR c1) OR c2) OR c3) AND CASE_MASK"

definition same_fold :: "32 word \<Rightarrow> 32 word \<Rightarrow> bool" where
  "same_fold x y \<longleftrightarrow>
     (x = 0 \<longleftrightarrow> y = 0) \<and>
     (\<forall>s. s = 0 \<or> s = 8 \<or> s = 16 \<or> s = (24::nat) \<longrightarrow>
        push_bit s x AND CASE_MASK = push_bit s y AND CASE_MASK)"

section \<open>The table (xm_tables.c)\<close>

text \<open>
  An entry holds two \<open>char *\<close> and the checksum of its key. The key is a
  \<open>string option\<close> because \<open>xm_table_compress\<close> marks the entries it removes by
  storing NULL there; everywhere else the code dereferences the key without a test
  (\<open>the\<close>). The model works with the strings themselves, not with their addresses.

  \<open>xm_table_t\<close> embeds the array header \<open>a\<close> of its entries; the model has its
  fields \<open>a.elts\<close>, \<open>a.nelts\<close>, \<open>a.nalloc\<close> directly, with the storage typed as
  entries. \<open>a_elts\<close> lists the slots that have been written so far: the \<open>a_nelts\<close>
  active ones and, behind them, stale ones that a removal has left; slots that were
  allocated and never written are not represented. Counts and positions are \<open>int\<close>
  in C; they are only ever assigned from \<open>a.nelts\<close> and from loop counters that start
  at 0, so the model has them as \<open>nat\<close>. The two index arrays have
  \<open>TABLE_HASH_SIZE = 32\<close> slots; they are functions from the slot number.
\<close>

record xm_table_entry_t =
  key :: "string option"
  val :: string
  key_checksum :: "32 word"

record xm_table_t =
  a_elts :: "xm_table_entry_t list"
  a_nelts :: nat
  a_nalloc :: nat
  index_initialized :: "32 word"
  index_first :: "nat \<Rightarrow> nat"
  index_last :: "nat \<Rightarrow> nat"

text \<open>Modelled from the spec: \<open>xm_pstrdup\<close> is the arena's \<open>duplicate_string(arena, s)\<close>,
  which "copies a string into arena-owned memory"; its code is not in the sources. The
  copy has the bytes of the original.\<close>

definition xm_pstrdup :: "string \<Rightarrow> string" where
  "xm_pstrdup s = s"

definition TABLE_INDEX_IS_INITIALIZED :: "xm_table_t \<Rightarrow> nat \<Rightarrow> bool" where
  "TABLE_INDEX_IS_INITIALIZED t i \<longleftrightarrow> index_initialized t AND push_bit i 1 \<noteq> 0"

definition TABLE_SET_INDEX_INITIALIZED :: "xm_table_t \<Rightarrow> nat \<Rightarrow> xm_table_t" where
  "TABLE_SET_INDEX_INITIALIZED t i = t\<lparr>index_initialized := index_initialized t OR push_bit i 1\<rparr>"

text \<open>\<open>table_push\<close> is \<open>xm_array_push_noclear\<close> on the embedded header: when the array is
  full the capacity doubles (the reallocation copies the slots, so \<open>a_elts\<close> stays as it
  is), then the slot at \<open>a_nelts\<close> becomes the last active one. Each caller writes the
  three fields of that slot at once; the model takes them as the entry \<open>e\<close>.\<close>

definition table_push :: "xm_table_t \<Rightarrow> xm_table_entry_t \<Rightarrow> xm_table_t" where
  "table_push t e =
     (let t = (if a_nelts t = a_nalloc t
               then t\<lparr>a_nalloc := (if a_nalloc t \<le> 0 then 1 else a_nalloc t * 2)\<rparr>
               else t)
      in t\<lparr>a_elts := (if a_nelts t < length (a_elts t)
                      then (a_elts t)[a_nelts t := e]
                      else a_elts t @ [e]),
           a_nelts := a_nelts t + 1\<rparr>)"

text \<open>\<open>xm_table_make\<close>: the table comes from \<open>xm_palloc\<close>, which does not initialise
  it; \<open>raw\<close> is what the memory held, and it is what the index arrays keep.\<close>

definition xm_table_make :: "xm_table_t \<Rightarrow> int \<Rightarrow> xm_table_t" where
  "xm_table_make raw n =
     raw\<lparr>a_elts := [], a_nelts := 0, a_nalloc := nat (if n < 1 then 1 else n),
         index_initialized := 0\<rparr>"

definition reindex_body :: "nat \<Rightarrow> xm_table_t \<Rightarrow> xm_table_t" where
  "reindex_body i t =
     (let hash = TABLE_HASH (the (key (a_elts t ! i)));
          t = t\<lparr>index_last := (index_last t)(hash := i)\<rparr>
      in if \<not> TABLE_INDEX_IS_INITIALIZED t hash
         then TABLE_SET_INDEX_INITIALIZED (t\<lparr>index_first := (index_first t)(hash := i)\<rparr>) hash
         else t)"

definition table_reindex :: "xm_table_t \<Rightarrow> xm_table_t" where
  "table_reindex t = fold reindex_body [0..<a_nelts t] (t\<lparr>index_initialized := 0\<rparr>)"

text \<open>The test that every lookup loop applies to an entry: the checksums first, then
  \<open>strcasecmp\<close>.\<close>

definition key_eq :: "32 word \<Rightarrow> string \<Rightarrow> xm_table_entry_t \<Rightarrow> bool" where
  "key_eq checksum k e \<longleftrightarrow> checksum = key_checksum e \<and> strcasecmp (the (key e)) k = 0"

text \<open>The loop \<open>for (; next_elt <= end_elt; next_elt++)\<close> of \<open>xm_table_get\<close>,
  \<open>xm_table_set\<close> and \<open>xm_table_unset\<close>, up to its first match: the position of that
  entry, or \<open>None\<close> when the loop runs out.\<close>

function find_key :: "xm_table_entry_t list \<Rightarrow> 32 word \<Rightarrow> string \<Rightarrow> nat \<Rightarrow> nat \<Rightarrow> nat option" where
  "find_key es checksum k next_elt end_elt =
     (if next_elt \<le> end_elt
      then (if key_eq checksum k (es ! next_elt) then Some next_elt
            else find_key es checksum k (next_elt + 1) end_elt)
      else None)"
  by pat_completeness auto
termination
  by (relation "measure (\<lambda>(es, checksum, k, next_elt, end_elt). Suc end_elt - next_elt)") auto

declare find_key.simps [simp del]

definition xm_table_get :: "bool \<Rightarrow> xm_table_t \<Rightarrow> string option \<Rightarrow> string option" where
  "xm_table_get sc t key_arg =
     (case key_arg of
        None \<Rightarrow> None
      | Some k \<Rightarrow>
          (let hash = TABLE_HASH k in
           if \<not> TABLE_INDEX_IS_INITIALIZED t hash then None
           else (let checksum = COMPUTE_KEY_CHECKSUM sc k in
                 case find_key (a_elts t) checksum k (index_first t hash) (index_last t hash) of
                   Some next_elt \<Rightarrow> Some (val (a_elts t ! next_elt))
                 | None \<Rightarrow> None)))"

text \<open>The label \<open>add_new_elt\<close> of \<open>xm_table_set\<close>.\<close>

definition add_new_elt :: "xm_table_t \<Rightarrow> nat \<Rightarrow> string \<Rightarrow> string \<Rightarrow> 32 word \<Rightarrow> xm_table_t" where
  "add_new_elt t hash k v checksum =
     table_push (t\<lparr>index_last := (index_last t)(hash := a_nelts t)\<rparr>)
       \<lparr>key = Some (xm_pstrdup k), val = xm_pstrdup v, key_checksum = checksum\<rparr>"

text \<open>The loop of \<open>xm_table_set\<close> that removes the other instances of the key: the state
  is the storage, \<open>a.nelts\<close>, \<open>dst_elt\<close> (NULL is \<open>None\<close>) and \<open>must_reindex\<close>.\<close>

function set_remove_dups :: "32 word \<Rightarrow> string \<Rightarrow> nat \<Rightarrow>
    xm_table_entry_t list \<times> nat \<times> nat option \<times> bool \<Rightarrow> nat \<Rightarrow>
    xm_table_entry_t list \<times> nat \<times> nat option \<times> bool" where
  "set_remove_dups checksum k end_elt (es, n, dst_elt, must_reindex) next_elt =
     (if next_elt \<le> end_elt
      then (if key_eq checksum k (es ! next_elt)
            then set_remove_dups checksum k end_elt
                   (es, n - 1, (case dst_elt of None \<Rightarrow> Some next_elt | Some d \<Rightarrow> Some d),
                    must_reindex) (next_elt + 1)
            else (case dst_elt of
                    Some d \<Rightarrow> set_remove_dups checksum k end_elt
                                (es[d := es ! next_elt], n, Some (d + 1), True) (next_elt + 1)
                  | None \<Rightarrow> set_remove_dups checksum k end_elt
                              (es, n, None, must_reindex) (next_elt + 1)))
      else (es, n, dst_elt, must_reindex))"
  by pat_completeness auto
termination
  by (relation "measure (\<lambda>(checksum, k, end_elt, st, next_elt). Suc end_elt - next_elt)") auto

declare set_remove_dups.simps [simp del]

text \<open>The loop \<open>for (; next_elt < table_end; next_elt++) *dst_elt++ = *next_elt\<close>.\<close>

function shift_rest :: "xm_table_entry_t list \<Rightarrow> nat \<Rightarrow> nat \<Rightarrow> nat \<Rightarrow> xm_table_entry_t list" where
  "shift_rest es dst_elt next_elt table_end =
     (if next_elt < table_end
      then shift_rest (es[dst_elt := es ! next_elt]) (dst_elt + 1) (next_elt + 1) table_end
      else es)"
  by pat_completeness auto
termination
  by (relation "measure (\<lambda>(es, dst_elt, next_elt, table_end). table_end - next_elt)") auto

declare shift_rest.simps [simp del]

definition xm_table_set :: "bool \<Rightarrow> xm_table_t \<Rightarrow> string \<Rightarrow> string \<Rightarrow> xm_table_t" where
  "xm_table_set sc t k v =
     (let checksum = COMPUTE_KEY_CHECKSUM sc k;
          hash = TABLE_HASH k
      in if \<not> TABLE_INDEX_IS_INITIALIZED t hash
         then add_new_elt
                (TABLE_SET_INDEX_INITIALIZED (t\<lparr>index_first := (index_first t)(hash := a_nelts t)\<rparr>) hash)
                hash k v checksum
         else (let end_elt = index_last t hash;
                   table_end = a_nelts t
               in case find_key (a_elts t) checksum k (index_first t hash) end_elt of
                    Some next_elt \<Rightarrow>
                      (let es = (a_elts t)[next_elt := (a_elts t ! next_elt)\<lparr>val := xm_pstrdup v\<rparr>];
                           (es, n, dst_elt, must_reindex) =
                              set_remove_dups checksum k end_elt (es, a_nelts t, None, False) (next_elt + 1);
                           (es, must_reindex) =
                              (case dst_elt of
                                 Some d \<Rightarrow> (shift_rest es d (end_elt + 1) table_end, True)
                               | None \<Rightarrow> (es, must_reindex));
                           t = t\<lparr>a_elts := es, a_nelts := n\<rparr>
                       in if must_reindex then table_reindex t else t)
                  | None \<Rightarrow> add_new_elt t hash k v checksum))"

text \<open>The inner loop of \<open>xm_table_unset\<close>; here \<open>dst_elt\<close> is set from the start.\<close>

function unset_remove_dups :: "32 word \<Rightarrow> string \<Rightarrow> nat \<Rightarrow>
    xm_table_entry_t list \<times> nat \<times> nat \<Rightarrow> nat \<Rightarrow> xm_table_entry_t list \<times> nat \<times> nat" where
  "unset_remove_dups checksum k end_elt (es, n, dst_elt) next_elt =
     (if next_elt \<le> end_elt
      then (if key_eq checksum k (es ! next_elt)
            then unset_remove_dups checksum k end_elt (es, n - 1, dst_elt) (next_elt + 1)
            else unset_remove_dups checksum k end_elt
                   (es[dst_elt := es ! next_elt], n, dst_elt + 1) (next_elt + 1))
      else (es, n, dst_elt))"
  by pat_completeness auto
termination
  by (relation "measure (\<lambda>(checksum, k, end_elt, st, next_elt). Suc end_elt - next_elt)") auto

declare unset_remove_dups.simps [simp del]

definition xm_table_unset :: "bool \<Rightarrow> xm_table_t \<Rightarrow> string \<Rightarrow> xm_table_t" where
  "xm_table_unset sc t k =
     (let hash = TABLE_HASH k
      in if \<not> TABLE_INDEX_IS_INITIALIZED t hash then t
         else (let checksum = COMPUTE_KEY_CHECKSUM sc k;
                   end_elt = index_last t hash
               in case find_key (a_elts t) checksum k (index_first t hash) end_elt of
                    Some next_elt \<Rightarrow>
                      (let table_end = a_nelts t;
                           (es, n, dst_elt) =
                              unset_remove_dups checksum k end_elt
                                (a_elts t, a_nelts t - 1, next_elt) (next_elt + 1);
                           es = shift_rest es dst_elt (end_elt + 1) table_end
                       in table_reindex (t\<lparr>a_elts := es, a_nelts := n\<rparr>))
                  | None \<Rightarrow> t))"

definition xm_table_add :: "bool \<Rightarrow> xm_table_t \<Rightarrow> string \<Rightarrow> string \<Rightarrow> xm_table_t" where
  "xm_table_add sc t k v =
     (let hash = TABLE_HASH k;
          t = t\<lparr>index_last := (index_last t)(hash := a_nelts t)\<rparr>;
          t = (if \<not> TABLE_INDEX_IS_INITIALIZED t hash
               then TABLE_SET_INDEX_INITIALIZED (t\<lparr>index_first := (index_first t)(hash := a_nelts t)\<rparr>) hash
               else t);
          checksum = COMPUTE_KEY_CHECKSUM sc k
      in table_push t \<lparr>key = Some (xm_pstrdup k), val = xm_pstrdup v, key_checksum = checksum\<rparr>)"

text \<open>
  The active entries of a table, and the well-formedness that every operation keeps:
  the active slots exist; each active entry has a key, carries the checksum of that key
  and lies inside the range recorded for its bucket; the range of an initialised bucket
  is not empty and ends inside the active part.
\<close>

definition entries :: "xm_table_t \<Rightarrow> xm_table_entry_t list" where
  "entries t = take (a_nelts t) (a_elts t)"

definition entry_wf :: "bool \<Rightarrow> xm_table_entry_t \<Rightarrow> bool" where
  "entry_wf sc e \<longleftrightarrow>
     (case key e of None \<Rightarrow> False | Some k \<Rightarrow> key_checksum e = COMPUTE_KEY_CHECKSUM sc k)"

definition entry_ok :: "bool \<Rightarrow> xm_table_t \<Rightarrow> nat \<Rightarrow> bool" where
  "entry_ok sc t i \<longleftrightarrow>
     (case key (a_elts t ! i) of
        None \<Rightarrow> False
      | Some k \<Rightarrow>
          key_checksum (a_elts t ! i) = COMPUTE_KEY_CHECKSUM sc k \<and>
          TABLE_INDEX_IS_INITIALIZED t (TABLE_HASH k) \<and>
          index_first t (TABLE_HASH k) \<le> i \<and> i \<le> index_last t (TABLE_HASH k))"

definition table_inv :: "bool \<Rightarrow> xm_table_t \<Rightarrow> bool" where
  "table_inv sc t \<longleftrightarrow>
     a_nelts t \<le> length (a_elts t) \<and>
     list_all (entry_ok sc t) [0..<a_nelts t] \<and>
     list_all (\<lambda>h. TABLE_INDEX_IS_INITIALIZED t h \<longrightarrow>
                    index_first t h \<le> index_last t h \<and> index_last t h < a_nelts t) [0..<32]"

text \<open>The entries whose key equals \<open>k\<close> under \<open>strcasecmp\<close>.\<close>

definition has_key :: "string \<Rightarrow> xm_table_entry_t \<Rightarrow> bool" where
  "has_key k e \<longleftrightarrow> (case key e of Some ek \<Rightarrow> strcasecmp ek k = 0 | None \<Rightarrow> False)"

text \<open>The slots at positions \<open>i\<close> up to, not including, \<open>j\<close>.\<close>

definition slots :: "'a list \<Rightarrow> nat \<Rightarrow> nat \<Rightarrow> 'a list" where
  "slots es i j = take (j - i) (drop i es)"

text \<open>What the first \<open>n\<close> rounds of the loop of \<open>table_reindex\<close> establish
  (used in the proofs).\<close>

definition reindexed :: "xm_table_t \<Rightarrow> nat \<Rightarrow> xm_table_t \<Rightarrow> bool" where
  "reindexed t n t' \<longleftrightarrow>
     a_elts t' = a_elts t \<and> a_nelts t' = a_nelts t \<and> a_nalloc t' = a_nalloc t \<and>
     (\<forall>i<n. TABLE_INDEX_IS_INITIALIZED t' (TABLE_HASH (the (key (a_elts t ! i)))) \<and>
            index_first t' (TABLE_HASH (the (key (a_elts t ! i)))) \<le> i \<and>
            i \<le> index_last t' (TABLE_HASH (the (key (a_elts t ! i))))) \<and>
     (\<forall>h. TABLE_INDEX_IS_INITIALIZED t' h \<longrightarrow>
            index_first t' h \<le> index_last t' h \<and> index_last t' h < n)"

text \<open>What the spec says \<open>set\<close> does to the sequence of entries: the first entry
  with the key gets the value and every later entry with the key goes; without such an
  entry the new one is appended.\<close>

fun set_entries :: "string \<Rightarrow> string \<Rightarrow> xm_table_entry_t \<Rightarrow> xm_table_entry_t list \<Rightarrow>
    xm_table_entry_t list" where
  "set_entries k v new [] = [new]"
| "set_entries k v new (e # es) =
     (if has_key k e then e\<lparr>val := v\<rparr> # filter (\<lambda>x. \<not> has_key k x) es
      else e # set_entries k v new es)"

section \<open>Iterating over a table: \<open>xm_table_vdo\<close> and \<open>xm_table_do\<close>\<close>

text \<open>
  The callback \<open>int comp(void *rec, const char *key, const char *value)\<close> may change
  what \<open>rec\<close> points to: it is a function from the state of \<open>rec\<close>, the key and the
  value to the new state and the returned \<open>int\<close>. The \<open>va_list\<close> is the list of the
  keys that come before the terminating NULL.
\<close>

type_synonym 'r callback = "'r \<Rightarrow> string \<Rightarrow> string \<Rightarrow> 'r \<times> int"

text \<open>The loop \<open>for (i = t->index_first[hash]; rv && (i <= t->index_last[hash]); ++i)\<close>.\<close>

function vdo_bucket :: "'r callback \<Rightarrow> xm_table_entry_t list \<Rightarrow> 32 word \<Rightarrow> string \<Rightarrow> nat \<Rightarrow>
    'r \<times> int \<Rightarrow> nat \<Rightarrow> 'r \<times> int" where
  "vdo_bucket compf es checksum argp last_i (rec, rv) i =
     (if rv \<noteq> 0 \<and> i \<le> last_i
      then (if key (es ! i) \<noteq> None \<and> checksum = key_checksum (es ! i) \<and>
               strcasecmp (the (key (es ! i))) argp = 0
            then vdo_bucket compf es checksum argp last_i
                   (compf rec (the (key (es ! i))) (val (es ! i))) (i + 1)
            else vdo_bucket compf es checksum argp last_i (rec, rv) (i + 1))
      else (rec, rv))"
  by pat_completeness auto
termination
  by (relation "measure (\<lambda>(compf, es, checksum, argp, last_i, st, i). Suc last_i - i)") auto

declare vdo_bucket.simps [simp del]

text \<open>The loop \<open>for (i = 0; rv && (i < t->a.nelts); ++i)\<close>.\<close>

function vdo_all :: "'r callback \<Rightarrow> xm_table_entry_t list \<Rightarrow> nat \<Rightarrow> 'r \<times> int \<Rightarrow> nat \<Rightarrow> 'r \<times> int" where
  "vdo_all compf es n (rec, rv) i =
     (if rv \<noteq> 0 \<and> i < n
      then (if key (es ! i) \<noteq> None
            then vdo_all compf es n (compf rec (the (key (es ! i))) (val (es ! i))) (i + 1)
            else vdo_all compf es n (rec, rv) (i + 1))
      else (rec, rv))"
  by pat_completeness auto
termination
  by (relation "measure (\<lambda>(compf, es, n, st, i). n - i)") auto

declare vdo_all.simps [simp del]

text \<open>One round of the \<open>do ... while\<close> loop, up to the test \<open>if (rv == 0)\<close>: it starts
  with \<open>rv = 1\<close> and gives the state of \<open>rec\<close> and \<open>rv\<close>.\<close>

definition vdo_round :: "bool \<Rightarrow> 'r callback \<Rightarrow> xm_table_t \<Rightarrow> string option \<Rightarrow> 'r \<Rightarrow> 'r \<times> int" where
  "vdo_round sc compf t argp rec =
     (case argp of
        Some k \<Rightarrow>
          (let hash = TABLE_HASH k in
           if TABLE_INDEX_IS_INITIALIZED t hash
           then (let checksum = COMPUTE_KEY_CHECKSUM sc k in
                 vdo_bucket compf (a_elts t) checksum k (index_last t hash) (rec, 1)
                   (index_first t hash))
           else (rec, 1))
      | None \<Rightarrow> vdo_all compf (a_elts t) (a_nelts t) (rec, 1) 0)"

text \<open>The rounds for the keys of the \<open>va_list\<close>, one after the other.\<close>

fun vdo_keys :: "bool \<Rightarrow> 'r callback \<Rightarrow> xm_table_t \<Rightarrow> string list \<Rightarrow> 'r \<times> int \<Rightarrow> 'r \<times> int" where
  "vdo_keys sc compf t [] (rec, vdorv) = (rec, vdorv)"
| "vdo_keys sc compf t (argp # vp) (rec, vdorv) =
     (let (rec, rv) = vdo_round sc compf t (Some argp) rec
      in vdo_keys sc compf t vp (rec, if rv = 0 then 0 else vdorv))"

definition xm_table_vdo :: "bool \<Rightarrow> 'r callback \<Rightarrow> 'r \<Rightarrow> xm_table_t \<Rightarrow> string list \<Rightarrow> 'r \<times> int" where
  "xm_table_vdo sc compf rec t vp =
     (case vp of
        [] \<Rightarrow> (let (rec, rv) = vdo_round sc compf t None rec in (rec, if rv = 0 then 0 else 1))
      | _ \<Rightarrow> vdo_keys sc compf t vp (rec, 1))"

definition xm_table_do :: "bool \<Rightarrow> 'r callback \<Rightarrow> 'r \<Rightarrow> xm_table_t \<Rightarrow> string list \<Rightarrow> 'r \<times> int" where
  "xm_table_do sc compf rec t keys = xm_table_vdo sc compf rec t keys"

text \<open>
  What the spec says of \<open>iterate\<close>. \<open>visit\<close> invokes the callback on the given entries
  in order and stops behind the first invocation that returns 0; it gives the state of
  \<open>rec\<close> and the invocations made, each with its key, value and result. With keys,
  each key has its own visit of the entries that have the key; without keys there is
  one visit of all entries.
\<close>

fun visit :: "'r callback \<Rightarrow> 'r \<Rightarrow> xm_table_entry_t list \<Rightarrow> 'r \<times> (string \<times> string \<times> int) list" where
  "visit compf rec [] = (rec, [])"
| "visit compf rec (e # es) =
     (let (rec1, rv) = compf rec (the (key e)) (val e)
      in if rv = 0 then (rec1, [(the (key e), val e, rv)])
         else (let (rec2, calls) = visit compf rec1 es
               in (rec2, (the (key e), val e, rv) # calls)))"

fun iterate_keys :: "'r callback \<Rightarrow> 'r \<Rightarrow> xm_table_entry_t list \<Rightarrow> string list \<Rightarrow>
    'r \<times> (string \<times> string \<times> int) list" where
  "iterate_keys compf rec es [] = (rec, [])"
| "iterate_keys compf rec es (k # ks) =
     (let (rec1, calls1) = visit compf rec (filter (has_key k) es);
          (rec2, calls2) = iterate_keys compf rec1 es ks
      in (rec2, calls1 @ calls2))"

definition iterate_spec :: "'r callback \<Rightarrow> 'r \<Rightarrow> xm_table_entry_t list \<Rightarrow> string list \<Rightarrow>
    'r \<times> (string \<times> string \<times> int) list" where
  "iterate_spec compf rec es keys =
     (if keys = [] then visit compf rec es else iterate_keys compf rec es keys)"

text \<open>A callback together with a log of its invocations.\<close>

definition traced :: "'r callback \<Rightarrow> ('r \<times> (string \<times> string \<times> int) list) callback" where
  "traced compf = (\<lambda>(rec, calls) k v.
     (let (rec1, rv) = compf rec k v in ((rec1, calls @ [(k, v, rv)]), rv)))"

text \<open>The invocations that the two loops make, as a function of the entries they look
  at (used in the proofs): the callback runs on each while \<open>rv\<close> is not 0.\<close>

fun run_calls :: "'r callback \<Rightarrow> 'r \<times> int \<Rightarrow> xm_table_entry_t list \<Rightarrow> 'r \<times> int" where
  "run_calls compf (rec, rv) [] = (rec, rv)"
| "run_calls compf (rec, rv) (e # es) =
     (if rv = 0 then (rec, rv) else run_calls compf (compf rec (the (key e)) (val e)) es)"

text \<open>Some invocation in the log returned 0.\<close>

definition any_zero :: "(string \<times> string \<times> int) list \<Rightarrow> bool" where
  "any_zero calls \<longleftrightarrow> (\<exists>c\<in>set calls. snd (snd c) = 0)"

text \<open>A table memory before \<open>xm_table_make\<close>, and a table with two entries for one
  key, for the examples.\<close>

definition raw0 :: xm_table_t where
  "raw0 = \<lparr>a_elts = [], a_nelts = 0, a_nalloc = 0, index_initialized = 0,
           index_first = (\<lambda>_. 0), index_last = (\<lambda>_. 0)\<rparr>"

definition hosts :: xm_table_t where
  "hosts = xm_table_add True (xm_table_add True (xm_table_add True (xm_table_make raw0 2)
             ''Host'' ''a'') ''Accept'' ''b'') ''HOST'' ''c''"

definition stop_at_a :: "nat callback" where
  "stop_at_a n k v = (n + 1, if v = ''a'' then 0 else 1)"

definition one_k :: xm_table_t where
  "one_k = xm_table_add True (xm_table_make raw0 2) ''K'' ''V0''"

section \<open>Arrays of strings: \<open>xm_array_pstrcat\<close> and \<open>xm_table_getm\<close>\<close>

text \<open>
  \<open>xm_array_pstrcat\<close> and \<open>table_getm_do\<close> use an \<open>xm_array_header_t\<close> whose
  elements are \<open>char *\<close>. This view of the header has the storage as a list of
  \<open>string option\<close> (a NULL element is \<open>None\<close>), itself optional because
  \<open>xm_array_pstrcat\<close> tests \<open>arr->elts == NULL\<close>. \<open>xm_array_make_strs\<close> and
  \<open>xm_array_push_strs\<close> are \<open>xm_array_make\<close> and \<open>xm_array_push\<close> on this view:
  zeroed storage is a storage of NULL pointers, and \<open>memcpy\<close> of
  \<open>nalloc * elt_size\<close> bytes copies \<open>nalloc\<close> elements. The push gives the array
  and the position of the new last element, which the caller writes.
\<close>

record str_array =
  p_elts :: "string option list option"
  p_nelts :: int
  p_nalloc :: int

definition xm_array_make_strs :: "int \<Rightarrow> str_array" where
  "xm_array_make_strs n =
     (let n = (if n < 1 then 1 else n)
      in \<lparr>p_elts = Some (replicate (nat n) None), p_nelts = 0, p_nalloc = n\<rparr>)"

definition xm_array_push_strs :: "str_array \<Rightarrow> str_array \<times> nat" where
  "xm_array_push_strs arr =
     (let arr = (if p_nelts arr = p_nalloc arr
                 then (let new_size = (if p_nalloc arr \<le> 0 then 1 else p_nalloc arr * 2);
                           old = (case p_elts arr of Some xs \<Rightarrow> xs | None \<Rightarrow> [])
                       in arr\<lparr>p_elts := Some (take (nat (p_nalloc arr)) old @
                                              replicate (nat (new_size - p_nalloc arr)) None),
                              p_nalloc := new_size\<rparr>)
                 else arr);
          arr = arr\<lparr>p_nelts := p_nelts arr + 1\<rparr>
      in (arr, nat (p_nelts arr - 1)))"

text \<open>Pass one of \<open>xm_array_pstrcat\<close>: the length of the result. \<open>strs\<close> is the
  storage, \<open>i\<close> the counter, and the pointer \<open>strpp\<close> is at element \<open>i\<close>.\<close>

function pstrcat_len :: "string option list \<Rightarrow> char \<Rightarrow> int \<Rightarrow> int \<Rightarrow> nat \<Rightarrow> nat" where
  "pstrcat_len strs sep n i len =
     (let len = (case strs ! nat i of Some s \<Rightarrow> len + length s | None \<Rightarrow> len);
          i = i + 1
      in if i \<ge> n then len
         else pstrcat_len strs sep n i (if sep \<noteq> CHR 0x00 then len + 1 else len))"
  by pat_completeness auto
termination
  by (relation "measure (\<lambda>(strs, sep, n, i, len). nat (n - i))") auto

declare pstrcat_len.simps [simp del]

text \<open>Pass two: \<open>cp\<close> is what has been written into the result so far.\<close>

function pstrcat_copy :: "string option list \<Rightarrow> char \<Rightarrow> int \<Rightarrow> int \<Rightarrow> string \<Rightarrow> string" where
  "pstrcat_copy strs sep n i cp =
     (let cp = (case strs ! nat i of Some s \<Rightarrow> cp @ s | None \<Rightarrow> cp);
          i = i + 1
      in if i \<ge> n then cp
         else pstrcat_copy strs sep n i (if sep \<noteq> CHR 0x00 then cp @ [sep] else cp))"
  by pat_completeness auto
termination
  by (relation "measure (\<lambda>(strs, sep, n, i, cp). nat (n - i))") auto

declare pstrcat_copy.simps [simp del]

text \<open>The result is a \<open>char *\<close>; \<open>None\<close> would be NULL.\<close>

definition xm_array_pstrcat :: "str_array \<Rightarrow> char \<Rightarrow> string option" where
  "xm_array_pstrcat arr sep =
     (if p_nelts arr \<le> 0 \<or> p_elts arr = None then Some []
      else Some (pstrcat_copy (the (p_elts arr)) sep (p_nelts arr) 0 []))"

text \<open>What the code does with the slots of the array: the strings of the slots, a NULL
  slot counting as the empty string, with the separator (unless it is NUL) between each
  slot and the next.\<close>

definition slot_str :: "string option \<Rightarrow> string" where
  "slot_str x = (case x of Some s \<Rightarrow> s | None \<Rightarrow> [])"

fun join_slots :: "char \<Rightarrow> string option list \<Rightarrow> string" where
  "join_slots sep [] = []"
| "join_slots sep [x] = slot_str x"
| "join_slots sep (x # y # ys) =
     slot_str x @ (if sep \<noteq> CHR 0x00 then [sep] else []) @ join_slots sep (y # ys)"

text \<open>The state of \<open>xm_table_getm\<close> (\<open>table_getm_t\<close>, without the pool) and its
  callback.\<close>

record table_getm_t =
  first :: "string option"
  merged :: "str_array option"

definition table_getm_do :: "table_getm_t callback" where
  "table_getm_do state k v =
     (if first state = None then (state\<lparr>first := Some v\<rparr>, 1)
      else (let state =
                  (if merged state = None
                   then (let (arr, elt) = xm_array_push_strs (xm_array_make_strs 10)
                         in state\<lparr>merged :=
                              Some (arr\<lparr>p_elts := Some ((the (p_elts arr))[elt := first state])\<rparr>)\<rparr>)
                   else state);
                (arr, elt) = xm_array_push_strs (the (merged state))
            in (state\<lparr>merged := Some (arr\<lparr>p_elts := Some ((the (p_elts arr))[elt := Some v])\<rparr>)\<rparr>, 1)))"

definition xm_table_getm :: "bool \<Rightarrow> xm_table_t \<Rightarrow> string \<Rightarrow> string option" where
  "xm_table_getm sc t k =
     (let (state, rv) = xm_table_do sc table_getm_do \<lparr>first = None, merged = None\<rparr> t [k]
      in if first state = None then None
         else if merged state = None then first state
         else xm_array_pstrcat (the (merged state)) (CHR '',''))"

section \<open>\<open>table_mergesort\<close> and \<open>xm_table_compress\<close>\<close>

























section \<open>Properties of the pool cache\<close>

lemma free_keeps_bound:
  "cur_cache_n mpa \<le> max_cache_n mpa \<Longrightarrow>
   cur_cache_n (xm_mpool_agent_free reset mpa mp) \<le> max_cache_n (xm_mpool_agent_free reset mpa mp)"
  by (simp add: xm_mpool_agent_free_def inc_le)

lemma free_full_unchanged:
  "max_cache_n mpa \<le> cur_cache_n mpa \<Longrightarrow> xm_mpool_agent_free reset mpa mp = mpa"
  by (simp add: xm_mpool_agent_free_def)

lemma alloc_keeps_max:
  "max_cache_n (snd (xm_mpool_agent_alloc create1 mpa)) = max_cache_n mpa"
  by (simp add: xm_mpool_agent_alloc_def split: list.splits)

text \<open>
  Claim C1. The claim says that after \<open>initialize(max_count, arena_size, preallocate_count)\<close>
  the number of cached arenas never exceeds \<open>max_count\<close>, also when \<open>preallocate_count\<close> is
  larger. The loop of \<open>xm_mpool_agent_init\<close> counts every successful creation and never
  looks at \<open>max_cache_n\<close>: with \<open>max_count = 2\<close>, \<open>preallocate_count = 5\<close> and five
  successful creations the cache holds five pools and \<open>cur_cache_n = 5 > max_cache_n = 2\<close>.
\<close>

theorem init_exceeds_max:
  "cur_cache_n (xm_mpool_agent_init (\<lambda>i sz. Some i) 2 4096 5) = 5 \<and>
   max_cache_n (xm_mpool_agent_init (\<lambda>i sz. Some i) 2 4096 5) = 2 \<and>
   cache_list (xm_mpool_agent_init (\<lambda>i sz. Some i) 2 4096 5) = [4, 3, 2, 1, 0] \<and>
   \<not> cur_cache_n (xm_mpool_agent_init (\<lambda>i sz. Some i) 2 4096 5)
       \<le> max_cache_n (xm_mpool_agent_init (\<lambda>i sz. Some i) 2 4096 5)"
  by (simp add: xm_mpool_agent_init_def init_body_def upt_rec)

section \<open>The checksum agrees on keys that compare equal\<close>

lemma lc_eq_cases:
  assumes "lc a = lc b"
  shows "a = b
     \<or> (65 \<le> (of_char a :: nat) \<and> (of_char a :: nat) \<le> 90 \<and> (of_char b :: nat) = of_char a + 32)
     \<or> (65 \<le> (of_char b :: nat) \<and> (of_char b :: nat) \<le> 90 \<and> (of_char a :: nat) = of_char b + 32)"
proof -
  have "(of_char a :: int) = int (of_char a)" "(of_char b :: int) = int (of_char b)"
    by (simp_all add: of_nat_of_char)
  with assms have "(of_char a :: nat) = of_char b
     \<or> (65 \<le> (of_char a :: nat) \<and> (of_char a :: nat) \<le> 90 \<and> (of_char b :: nat) = of_char a + 32)
     \<or> (65 \<le> (of_char b :: nat) \<and> (of_char b :: nat) \<le> 90 \<and> (of_char a :: nat) = of_char b + 32)"
    unfolding lc_def tolower_def
    by (auto split: if_splits)
  then show ?thesis
    by auto
qed

lemma char_u32_small:
  assumes "(of_char c :: nat) < 128"
  shows "char_u32 sc c = of_nat (of_char c)"
proof -
  have w: "(of_char c :: 8 word) = of_nat (of_char c)"
    by (simp add: of_nat_of_char)
  have u: "(ucast (of_nat (of_char c) :: 8 word) :: 32 word) = of_nat (of_char c)"
    using assms by (simp add: unsigned_of_nat take_bit_nat_eq_self)
  have "signed_take_bit 7 (int (of_char c)) = int (of_char c)"
    using assms by (simp add: signed_take_bit_int_eq_self)
  then have s: "(scast (of_nat (of_char c) :: 8 word) :: 32 word) = of_nat (of_char c)"
    by (simp add: signed_of_nat)
  show ?thesis
    unfolding char_u32_def w using u s by simp
qed

lemma letter_fold:
  assumes "65 \<le> n" "n \<le> (90::nat)" and s: "s = 0 \<or> s = 8 \<or> s = 16 \<or> s = (24::nat)"
  shows "push_bit s (of_nat n :: 32 word) AND CASE_MASK = push_bit s (of_nat (n + 32)) AND CASE_MASK"
proof -
  from assms(1,2) have "n = 65 \<or> n = 66 \<or> n = 67 \<or> n = 68 \<or> n = 69 \<or> n = 70 \<or> n = 71
      \<or> n = 72 \<or> n = 73 \<or> n = 74 \<or> n = 75 \<or> n = 76 \<or> n = 77 \<or> n = 78 \<or> n = 79
      \<or> n = 80 \<or> n = 81 \<or> n = 82 \<or> n = 83 \<or> n = 84 \<or> n = 85 \<or> n = 86 \<or> n = 87
      \<or> n = 88 \<or> n = 89 \<or> n = 90"
    by arith
  with s show ?thesis
    by (elim disjE) (simp_all add: CASE_MASK_def)
qed

lemma byte_fold:
  assumes "lc a = lc b" and s: "s = 0 \<or> s = 8 \<or> s = 16 \<or> s = (24::nat)"
  shows "push_bit s (char_u32 sc a) AND CASE_MASK = push_bit s (char_u32 sc b) AND CASE_MASK"
  using lc_eq_cases [OF assms(1)]
proof (elim disjE conjE)
  assume "a = b"
  then show ?thesis by simp
next
  assume h: "65 \<le> (of_char a :: nat)" "(of_char a :: nat) \<le> 90" "(of_char b :: nat) = of_char a + 32"
  then have "char_u32 sc a = of_nat (of_char a)" "char_u32 sc b = of_nat (of_char a + 32)"
    using char_u32_small [of a sc] char_u32_small [of b sc] by simp_all
  then show ?thesis
    using letter_fold [OF h(1,2) s] by simp
next
  assume h: "65 \<le> (of_char b :: nat)" "(of_char b :: nat) \<le> 90" "(of_char a :: nat) = of_char b + 32"
  then have "char_u32 sc b = of_nat (of_char b)" "char_u32 sc a = of_nat (of_char b + 32)"
    using char_u32_small [of a sc] char_u32_small [of b sc] by simp_all
  then show ?thesis
    using letter_fold [OF h(1,2) s] by simp
qed

lemma of_char_zero_iff: "(of_char c :: nat) = 0 \<longleftrightarrow> c = CHR 0x00"
proof -
  have "(of_char c :: nat) = of_char (CHR 0x00) \<longleftrightarrow> c = CHR 0x00"
    by (rule of_char_eq_iff)
  then show ?thesis by simp
qed

lemma char_u32_zero_iff: "char_u32 sc c = 0 \<longleftrightarrow> c = CHR 0x00"
proof
  assume "c = CHR 0x00"
  then show "char_u32 sc c = 0" by (simp add: char_u32_def)
next
  assume z: "char_u32 sc c = 0"
  have w: "(of_char c :: 8 word) = of_nat (of_char c)"
    by (simp add: of_nat_of_char)
  have lt: "(of_char c :: nat) < 256"
    by (metis of_char_mod_256 mod_less_divisor zero_less_numeral)
  have "(of_char c :: 8 word) = 0"
  proof (cases sc)
    case True
    with z have "(scast (of_char c :: 8 word) :: 32 word) = 0" by (simp add: char_u32_def)
    then have "sint (scast (of_char c :: 8 word) :: 32 word) = 0" by simp
    then have "sint (of_char c :: 8 word) = 0" by (simp add: sint_up_scast is_up)
    then show ?thesis by (simp add: signed_eq_0_iff)
  next
    case False
    with z have "(ucast (of_char c :: 8 word) :: 32 word) = 0" by (simp add: char_u32_def)
    then have "uint (ucast (of_char c :: 8 word) :: 32 word) = 0" by simp
    then have "uint (of_char c :: 8 word) = 0" by (simp add: uint_up_ucast is_up)
    then show ?thesis by (simp add: unsigned_eq_0_iff)
  qed
  then have "unat (of_nat (of_char c) :: 8 word) = 0" using w by simp
  then have "(of_char c :: nat) = 0" using lt by (simp add: unat_of_nat)
  then show "c = CHR 0x00" by (simp add: of_char_zero_iff)
qed

lemma lc_NUL_iff:
  assumes "lc a = lc b"
  shows "a = CHR 0x00 \<longleftrightarrow> b = CHR 0x00"
  using lc_eq_cases [OF assms] by (auto simp flip: of_char_zero_iff)

lemma lc_zero_iff: "lc a = 0 \<longleftrightarrow> a = CHR 0x00"
proof -
  have "(of_char a :: int) = int (of_char a)" by (simp add: of_nat_of_char)
  then show ?thesis
    unfolding lc_def tolower_def by (auto simp flip: of_char_zero_iff)
qed

lemma same_fold_refl: "same_fold x x"
  by (simp add: same_fold_def)

lemma same_fold_lc: "lc a = lc b \<Longrightarrow> same_fold (char_u32 sc a) (char_u32 sc b)"
  unfolding same_fold_def
  using byte_fold [of a b _ sc] lc_NUL_iff [of a b] by (simp add: char_u32_zero_iff)

lemma cseq_same:
  "strcasecmp k1 k2 = 0 \<Longrightarrow> list_all2 same_fold (cseq n sc k1) (cseq n sc k2)"
proof (induction n arbitrary: k1 k2)
  case 0
  then show ?case by simp
next
  case (Suc n)
  have rep: "list_all2 same_fold (replicate m 0) (replicate m 0)" for m
    by (simp add: list_all2_conv_all_nth same_fold_refl)
  show ?case
  proof (cases k1)
    case Nil
    note k1 = this
    show ?thesis
    proof (cases k2)
      case Nil
      with k1 show ?thesis using rep [of "Suc n"] by simp
    next
      case (Cons b bs)
      with k1 Suc.prems have "b = CHR 0x00" by (simp add: lc_zero_iff)
      with k1 Cons show ?thesis using rep [of "Suc n"] by simp
    qed
  next
    case (Cons a as)
    note k1 = this
    show ?thesis
    proof (cases k2)
      case Nil
      with k1 Suc.prems have "a = CHR 0x00" by (simp add: lc_zero_iff)
      with k1 Nil show ?thesis using rep [of "Suc n"] by simp
    next
      case (Cons b bs)
      with k1 Suc.prems have ab: "lc a = lc b" and rest: "strcasecmp as bs = 0"
        by (simp_all split: if_splits)
      show ?thesis
      proof (cases "a = CHR 0x00")
        case True
        with lc_NUL_iff [OF ab] k1 Cons show ?thesis using rep [of "Suc n"] by simp
      next
        case False
        with lc_NUL_iff [OF ab] k1 Cons show ?thesis
          using same_fold_lc [OF ab] Suc.IH [OF rest] by simp
      qed
    qed
  qed
qed

lemma cks4_split:
  "cks4 c0 c1 c2 c3 = (push_bit 24 c0 AND CASE_MASK) OR (push_bit 16 c1 AND CASE_MASK)
      OR (push_bit 8 c2 AND CASE_MASK) OR (push_bit 0 c3 AND CASE_MASK)"
  by (simp add: cks4_def push_bit_or bit.conj_disj_distrib2 bit.conj_disj_distrib ac_simps)

lemma char_u32_NUL: "char_u32 sc (CHR 0x00) = 0"
  by (simp add: char_u32_def)

lemma checksum_cseq:
  "COMPUTE_KEY_CHECKSUM sc k =
     (case cseq 4 sc k of [c0, c1, c2, c3] \<Rightarrow> cks4 c0 c1 c2 c3 | _ \<Rightarrow> 0)"
proof -
  have four: "(4::nat) = Suc (Suc (Suc (Suc 0)))" by simp
  show ?thesis
    unfolding four
    by (cases k; (cases "tl k"; (cases "tl (tl k)"; cases "tl (tl (tl k))")))
      (auto simp add: COMPUTE_KEY_CHECKSUM_def cks4_def cbyte_def char_u32_zero_iff char_u32_NUL Let_def)
qed

lemma cks4_same:
  assumes "same_fold c0 d0" "same_fold c1 d1" "same_fold c2 d2" "same_fold c3 d3"
  shows "cks4 c0 c1 c2 c3 = cks4 d0 d1 d2 d3"
  using assms unfolding cks4_split same_fold_def by metis

lemma checksum_strcasecmp:
  assumes "strcasecmp k1 k2 = 0"
  shows "COMPUTE_KEY_CHECKSUM sc k1 = COMPUTE_KEY_CHECKSUM sc k2"
proof -
  have len: "length (cseq n sc k) = n" for n k
    by (induction n sc k rule: cseq.induct) simp_all
  obtain c0 c1 c2 c3 where c: "cseq 4 sc k1 = [c0, c1, c2, c3]"
    using len [of 4 k1] by (auto simp add: length_Suc_conv numeral_eq_Suc)
  obtain d0 d1 d2 d3 where d: "cseq 4 sc k2 = [d0, d1, d2, d3]"
    using len [of 4 k2] by (auto simp add: length_Suc_conv numeral_eq_Suc)
  from cseq_same [OF assms, of 4 sc] c d
  have "same_fold c0 d0" "same_fold c1 d1" "same_fold c2 d2" "same_fold c3 d3"
    by simp_all
  then have "cks4 c0 c1 c2 c3 = cks4 d0 d1 d2 d3"
    by (rule cks4_same)
  then show ?thesis
    by (simp add: checksum_cseq c d)
qed


text \<open>
  Claim C10. Two keys that are equal under \<open>strcasecmp\<close> have the same checksum;
  so an entry that stores one of them, with the checksum computed from it, passes the
  test \<open>checksum == key_checksum && !strcasecmp(...)\<close> of a lookup for the other.
\<close>

theorem checksum_no_false_negative:
  assumes "strcasecmp k1 k2 = 0"
  shows "COMPUTE_KEY_CHECKSUM sc k1 = COMPUTE_KEY_CHECKSUM sc k2 \<and>
         (\<forall>e. key e = Some k1 \<and> key_checksum e = COMPUTE_KEY_CHECKSUM sc k1 \<longrightarrow>
              key_eq (COMPUTE_KEY_CHECKSUM sc k2) k2 e)"
  using assms checksum_strcasecmp [OF assms, of sc] by (simp add: key_eq_def)

theorem checksum_no_false_negative_witness:
  "strcasecmp ''Host'' ''hOST'' = 0 \<and>
   COMPUTE_KEY_CHECKSUM True ''Host'' = COMPUTE_KEY_CHECKSUM True ''hOST'' \<and>
   key_eq (COMPUTE_KEY_CHECKSUM True ''hOST'') ''hOST''
     \<lparr>key = Some ''Host'', val = ''x'', key_checksum = COMPUTE_KEY_CHECKSUM True ''Host''\<rparr>"
proof -
  have h: "strcasecmp ''Host'' ''hOST'' = 0"
    by (simp add: lc_def tolower_def)
  from checksum_no_false_negative [OF h, of True] h show ?thesis by simp
qed

section \<open>Buckets, the initialised bits and the lookup loop\<close>

lemma TABLE_HASH_less: "TABLE_HASH k < 32"
proof -
  have "(0x1f :: 8 word) AND of_char (cbyte k 0) \<le> 0x1f"
    by (rule word_and_le2)
  then have "unat ((0x1f :: 8 word) AND of_char (cbyte k 0)) \<le> unat (0x1f :: 8 word)"
    by (simp add: word_le_nat_alt)
  then show ?thesis by (simp add: TABLE_HASH_def)
qed

lemma hash_letter:
  assumes "65 \<le> n" "n \<le> (90::nat)"
  shows "(0x1f :: 8 word) AND of_nat n = 0x1f AND of_nat (n + 32)"
proof -
  from assms(1,2) have "n = 65 \<or> n = 66 \<or> n = 67 \<or> n = 68 \<or> n = 69 \<or> n = 70 \<or> n = 71
      \<or> n = 72 \<or> n = 73 \<or> n = 74 \<or> n = 75 \<or> n = 76 \<or> n = 77 \<or> n = 78 \<or> n = 79
      \<or> n = 80 \<or> n = 81 \<or> n = 82 \<or> n = 83 \<or> n = 84 \<or> n = 85 \<or> n = 86 \<or> n = 87
      \<or> n = 88 \<or> n = 89 \<or> n = 90"
    by arith
  then show ?thesis
    by (elim disjE) simp_all
qed

lemma hash_byte:
  assumes "lc a = lc b"
  shows "(0x1f :: 8 word) AND of_char a = 0x1f AND of_char b"
proof -
  have w: "(of_char c :: 8 word) = of_nat (of_char c)" for c
    by (simp add: of_nat_of_char)
  from lc_eq_cases [OF assms] show ?thesis
    unfolding w using hash_letter [of "of_char a"] hash_letter [of "of_char b"]
    by auto
qed

lemma TABLE_HASH_strcasecmp:
  assumes "strcasecmp k1 k2 = 0"
  shows "TABLE_HASH k1 = TABLE_HASH k2"
proof (cases k1)
  case Nil
  note k1 = this
  show ?thesis
  proof (cases k2)
    case Nil
    with k1 show ?thesis by simp
  next
    case (Cons b bs)
    with k1 assms have "b = CHR 0x00" by (simp add: lc_zero_iff)
    with k1 Cons show ?thesis by (simp add: TABLE_HASH_def cbyte_def)
  qed
next
  case (Cons a as)
  note k1 = this
  show ?thesis
  proof (cases k2)
    case Nil
    with k1 assms have "a = CHR 0x00" by (simp add: lc_zero_iff)
    with k1 Nil show ?thesis by (simp add: TABLE_HASH_def cbyte_def)
  next
    case (Cons b bs)
    with k1 assms have "lc a = lc b" by (simp split: if_splits)
    from hash_byte [OF this] k1 Cons show ?thesis
      by (simp add: TABLE_HASH_def cbyte_def)
  qed
qed

lemma strcasecmp_refl: "strcasecmp k k = 0"
  by (induction k) simp_all

lemma initialized_iff_bit: "TABLE_INDEX_IS_INITIALIZED t i \<longleftrightarrow> bit (index_initialized t) i"
  by (simp add: TABLE_INDEX_IS_INITIALIZED_def bit_iff_and_push_bit_not_eq_0)

lemma initialized_less: "TABLE_INDEX_IS_INITIALIZED t i \<Longrightarrow> i < 32"
  using bit_imp_le_length [of "index_initialized t" i] by (simp add: initialized_iff_bit)

lemma initialized_set:
  "TABLE_INDEX_IS_INITIALIZED (TABLE_SET_INDEX_INITIALIZED t h) i \<longleftrightarrow>
     TABLE_INDEX_IS_INITIALIZED t i \<or> (i = h \<and> h < 32)"
  by (auto simp add: initialized_iff_bit TABLE_SET_INDEX_INITIALIZED_def bit_simps)

lemma find_key_Some:
  "find_key es cs k i e = Some p \<Longrightarrow>
     i \<le> p \<and> p \<le> e \<and> key_eq cs k (es ! p) \<and> (\<forall>j. i \<le> j \<and> j < p \<longrightarrow> \<not> key_eq cs k (es ! j))"
proof (induction es cs k i e rule: find_key.induct)
  case (1 es cs k i e)
  note unf = find_key.simps [of es cs k i e]
  show ?case
  proof (cases "i \<le> e \<and> \<not> key_eq cs k (es ! i)")
    case True
    with "1.prems" have "find_key es cs k (i + 1) e = Some p" by (simp add: unf)
    with "1.IH" True have "i + 1 \<le> p \<and> p \<le> e \<and> key_eq cs k (es ! p) \<and>
        (\<forall>j. i + 1 \<le> j \<and> j < p \<longrightarrow> \<not> key_eq cs k (es ! j))" by simp
    then have a: "i + 1 \<le> p" and b: "p \<le> e" and c: "key_eq cs k (es ! p)"
      and d: "\<forall>j. i + 1 \<le> j \<and> j < p \<longrightarrow> \<not> key_eq cs k (es ! j)" by simp_all
    have "\<not> key_eq cs k (es ! j)" if "i \<le> j \<and> j < p" for j
    proof (cases "j = i")
      case True
      with \<open>i \<le> e \<and> \<not> key_eq cs k (es ! i)\<close> show ?thesis by simp
    next
      case False
      with that have "i + 1 \<le> j \<and> j < p" by simp
      with d show ?thesis by blast
    qed
    with a b c show ?thesis by simp
  next
    case False
    with "1.prems" show ?thesis by (auto simp add: unf split: if_splits)
  qed
qed

lemma find_key_None:
  "find_key es cs k i e = None \<Longrightarrow> i \<le> j \<Longrightarrow> j \<le> e \<Longrightarrow> \<not> key_eq cs k (es ! j)"
proof (induction es cs k i e rule: find_key.induct)
  case (1 es cs k i e)
  note unf = find_key.simps [of es cs k i e]
  from "1.prems" have ie: "i \<le> e" by simp
  with "1.prems" have nm: "\<not> key_eq cs k (es ! i)" and rest: "find_key es cs k (i + 1) e = None"
    by (auto simp add: unf split: if_splits)
  show ?case
  proof (cases "j = i")
    case True
    with nm show ?thesis by simp
  next
    case False
    with "1.prems" have "i + 1 \<le> j" by simp
    with "1.IH" [OF ie nm rest] "1.prems" show ?thesis by simp
  qed
qed

section \<open>The compaction loops of \<open>xm_table_set\<close> and \<open>xm_table_unset\<close>\<close>

lemma slots_Cons: "i < j \<Longrightarrow> j \<le> length es \<Longrightarrow> slots es i j = es ! i # slots es (Suc i) j"
  by (simp add: slots_def Cons_nth_drop_Suc [symmetric] Suc_diff_Suc [symmetric] del: Suc_diff_Suc)

lemma slots_empty: "j \<le> i \<Longrightarrow> slots es i j = []"
  by (simp add: slots_def)

lemma slots_update: "d < i \<Longrightarrow> slots (es[d := x]) i j = slots es i j"
  by (simp add: slots_def)

lemma take_Suc_update: "d < length es \<Longrightarrow> take (Suc d) (es[d := x]) = take d es @ [x]"
  by (simp add: take_Suc_conv_app_nth)

lemma unset_remove_dups_spec:
  "d \<le> i \<Longrightarrow> i \<le> Suc L \<Longrightarrow> L < length es \<Longrightarrow>
   unset_remove_dups cs k L (es, n, d) i = (es', n', d') \<Longrightarrow>
   length es' = length es \<and> d' \<le> Suc L \<and>
   take d' es' = take d es @ filter (\<lambda>e. \<not> key_eq cs k e) (slots es i (Suc L)) \<and>
   drop (Suc L) es' = drop (Suc L) es \<and>
   n' = n - length (filter (key_eq cs k) (slots es i (Suc L)))"
proof (induction cs k L "(es, n, d)" i arbitrary: es n d es' n' d' rule: unset_remove_dups.induct)
  case (1 cs k L es n d i)
  note unf = unset_remove_dups.simps [of cs k L es n d i]
  show ?case
  proof (cases "i \<le> L")
    case False
    then have "unset_remove_dups cs k L (es, n, d) i = (es, n, d)" by (simp add: unf)
    with "1.prems" have "es' = es" "n' = n" "d' = d" by simp_all
    moreover from False "1.prems" have "i = Suc L" by simp
    ultimately show ?thesis using "1.prems" by (simp add: slots_empty)
  next
    case True
    with "1.prems" have sl: "slots es i (Suc L) = es ! i # slots es (Suc i) (Suc L)"
      by (simp add: slots_Cons)
    show ?thesis
    proof (cases "key_eq cs k (es ! i)")
      case m: True
      with True "1.prems" have "unset_remove_dups cs k L (es, n - 1, d) (i + 1) = (es', n', d')"
        by (simp add: unf)
      with "1.hyps"(1) [OF True m] "1.prems" True
      have "length es' = length es \<and> d' \<le> Suc L \<and>
         take d' es' = take d es @ filter (\<lambda>e. \<not> key_eq cs k e) (slots es (i + 1) (Suc L)) \<and>
         drop (Suc L) es' = drop (Suc L) es \<and>
         n' = n - 1 - length (filter (key_eq cs k) (slots es (i + 1) (Suc L)))"
        by simp
      with m show ?thesis by (simp add: sl)
    next
      case m: False
      let ?es = "es[d := es ! i]"
      from True m "1.prems" have "unset_remove_dups cs k L (?es, n, d + 1) (i + 1) = (es', n', d')"
        by (simp add: unf)
      with "1.hyps"(2) [OF True m] "1.prems" True
      have "length es' = length ?es \<and> d' \<le> Suc L \<and>
         take d' es' = take (d + 1) ?es @ filter (\<lambda>e. \<not> key_eq cs k e) (slots ?es (i + 1) (Suc L)) \<and>
         drop (Suc L) es' = drop (Suc L) ?es \<and>
         n' = n - length (filter (key_eq cs k) (slots ?es (i + 1) (Suc L)))"
        by simp
      moreover from "1.prems" True have "d < length es" "d < i + 1" "d < Suc L" by simp_all
      ultimately show ?thesis using m
        by (simp add: sl slots_update take_Suc_update)
    qed
  qed
qed

lemma shift_rest_spec:
  "d \<le> i \<Longrightarrow> E \<le> length es \<Longrightarrow> shift_rest es d i E = es' \<Longrightarrow>
   length es' = length es \<and> take (d + (E - i)) es' = take d es @ slots es i E"
proof (induction es d i E arbitrary: es' rule: shift_rest.induct)
  case (1 es d i E)
  note unf = shift_rest.simps [of es d i E]
  show ?case
  proof (cases "i < E")
    case False
    with "1.prems" show ?thesis by (simp add: unf slots_empty)
  next
    case True
    let ?es = "es[d := es ! i]"
    from True "1.prems" have "shift_rest ?es (d + 1) (i + 1) E = es'"
      by (simp add: unf)
    with "1.IH" [OF True] "1.prems"
    have "length es' = length ?es \<and>
        take (d + 1 + (E - (i + 1))) es' = take (d + 1) ?es @ slots ?es (i + 1) E"
      by simp
    moreover from "1.prems" True have "d < length es" "d < i + 1" by simp_all
    moreover from True have "d + 1 + (E - (i + 1)) = d + (E - i)" by simp
    ultimately show ?thesis using True "1.prems"
      by (simp add: slots_update take_Suc_update slots_Cons)
  qed
qed

lemma set_remove_dups_spec:
  "i \<le> Suc L \<Longrightarrow> L < length es \<Longrightarrow> (case dst of Some d \<Rightarrow> d < i | None \<Rightarrow> True) \<Longrightarrow>
   set_remove_dups cs k L (es, n, dst, mr) i = (es', n', dst', mr') \<Longrightarrow>
   length es' = length es \<and>
   drop (Suc L) es' = drop (Suc L) es \<and>
   n' = n - length (filter (key_eq cs k) (slots es i (Suc L))) \<and>
   (case dst' of
      None \<Rightarrow> dst = None \<and> es' = es \<and> mr' = mr \<and> filter (key_eq cs k) (slots es i (Suc L)) = []
    | Some d' \<Rightarrow> d' \<le> Suc L \<and>
        take d' es' = take (case dst of None \<Rightarrow> i | Some d \<Rightarrow> d) es @
                      filter (\<lambda>e. \<not> key_eq cs k e) (slots es i (Suc L)))"
proof (induction cs k L "(es, n, dst, mr)" i arbitrary: es n dst mr es' n' dst' mr'
    rule: set_remove_dups.induct)
  case (1 cs k L es n dst mr i)
  note unf = set_remove_dups.simps [of cs k L es n dst mr i]
  show ?case
  proof (cases "i \<le> L")
    case False
    then have "set_remove_dups cs k L (es, n, dst, mr) i = (es, n, dst, mr)" by (simp add: unf)
    with "1.prems" have "es' = es" "n' = n" "dst' = dst" "mr' = mr" by simp_all
    moreover from False "1.prems" have "i = Suc L" by simp
    ultimately show ?thesis using "1.prems"
      by (auto simp add: slots_empty split: option.splits)
  next
    case True
    with "1.prems" have sl: "slots es i (Suc L) = es ! i # slots es (Suc i) (Suc L)"
      by (simp add: slots_Cons)
    show ?thesis
    proof (cases "key_eq cs k (es ! i)")
      case m: True
      let ?dst = "case dst of None \<Rightarrow> Some i | Some d \<Rightarrow> Some d"
      from True m "1.prems"
      have c: "set_remove_dups cs k L (es, n - 1, ?dst, mr) (i + 1) = (es', n', dst', mr')"
        by (simp add: unf)
      from "1.prems" have ok: "case ?dst of Some d \<Rightarrow> d < i + 1 | None \<Rightarrow> True"
        by (simp split: option.splits)
      from "1.hyps"(1) [OF True m _ _ ok c] "1.prems" True
      have "length es' = length es \<and>
         drop (Suc L) es' = drop (Suc L) es \<and>
         n' = n - 1 - length (filter (key_eq cs k) (slots es (i + 1) (Suc L))) \<and>
         (case dst' of
            None \<Rightarrow> ?dst = None \<and> es' = es \<and> mr' = mr \<and>
               filter (key_eq cs k) (slots es (i + 1) (Suc L)) = []
          | Some d' \<Rightarrow> d' \<le> Suc L \<and>
              take d' es' = take (case ?dst of None \<Rightarrow> i + 1 | Some d \<Rightarrow> d) es @
                      filter (\<lambda>e. \<not> key_eq cs k e) (slots es (i + 1) (Suc L)))"
        by simp
      with m show ?thesis
        by (auto simp add: sl split: option.splits)
    next
      case m: False
      show ?thesis
      proof (cases dst)
        case None
        with True m "1.prems"(4) [unfolded unf]
        have c: "set_remove_dups cs k L (es, n, None, mr) (i + 1) = (es', n', dst', mr')"
          by simp
        from "1.hyps"(2) [OF True m None _ _ _ c] "1.prems" True
        have "length es' = length es \<and>
           drop (Suc L) es' = drop (Suc L) es \<and>
           n' = n - length (filter (key_eq cs k) (slots es (i + 1) (Suc L))) \<and>
           (case dst' of
              None \<Rightarrow> es' = es \<and> mr' = mr \<and>
                 filter (key_eq cs k) (slots es (i + 1) (Suc L)) = []
            | Some d' \<Rightarrow> d' \<le> Suc L \<and>
                take d' es' = take (i + 1) es @
                        filter (\<lambda>e. \<not> key_eq cs k e) (slots es (i + 1) (Suc L)))"
          by (cases dst') simp_all
        moreover from True "1.prems" have "take (i + 1) es = take i es @ [es ! i]"
          by (simp add: take_Suc_conv_app_nth)
        ultimately show ?thesis using m None
          by (auto simp add: sl split: option.splits)
      next
        case (Some d)
        let ?es = "es[d := es ! i]"
        from Some True m "1.prems"(4) [unfolded unf]
        have c: "set_remove_dups cs k L (?es, n, Some (d + 1), True) (i + 1) = (es', n', dst', mr')"
          by simp
        from Some "1.prems" have di: "d < i" by simp
        from "1.hyps"(3) [OF True m Some _ _ _ c] "1.prems" True di
        have "length es' = length ?es \<and>
           drop (Suc L) es' = drop (Suc L) ?es \<and>
           n' = n - length (filter (key_eq cs k) (slots ?es (i + 1) (Suc L))) \<and>
           (case dst' of
              None \<Rightarrow> False
            | Some d' \<Rightarrow> d' \<le> Suc L \<and>
                take d' es' = take (d + 1) ?es @
                        filter (\<lambda>e. \<not> key_eq cs k e) (slots ?es (i + 1) (Suc L)))"
          by (cases dst') simp_all
        moreover from "1.prems" True di have "d < length es" "d < i + 1" "d < Suc L" by simp_all
        ultimately show ?thesis using m Some
          by (auto simp add: sl slots_update take_Suc_update split: option.splits)
      qed
    qed
  qed
qed

section \<open>Reindexing and the well-formedness of tables\<close>

lemma table_inv_iff:
  "table_inv sc t \<longleftrightarrow>
     a_nelts t \<le> length (a_elts t) \<and>
     (\<forall>i<a_nelts t. entry_ok sc t i) \<and>
     (\<forall>h. TABLE_INDEX_IS_INITIALIZED t h \<longrightarrow>
            index_first t h \<le> index_last t h \<and> index_last t h < a_nelts t)"
  unfolding table_inv_def list_all_iff
  using initialized_less [of t] by auto

lemma entry_ok_iff:
  "entry_ok sc t i \<longleftrightarrow>
     entry_wf sc (a_elts t ! i) \<and>
     TABLE_INDEX_IS_INITIALIZED t (TABLE_HASH (the (key (a_elts t ! i)))) \<and>
     index_first t (TABLE_HASH (the (key (a_elts t ! i)))) \<le> i \<and>
     i \<le> index_last t (TABLE_HASH (the (key (a_elts t ! i))))"
  by (auto simp add: entry_ok_def entry_wf_def split: option.splits)

lemma initialized_upd [simp]:
  "TABLE_INDEX_IS_INITIALIZED (t\<lparr>index_last := l\<rparr>) h = TABLE_INDEX_IS_INITIALIZED t h"
  "TABLE_INDEX_IS_INITIALIZED (t\<lparr>index_first := f\<rparr>) h = TABLE_INDEX_IS_INITIALIZED t h"
  "TABLE_INDEX_IS_INITIALIZED (t\<lparr>a_elts := es\<rparr>) h = TABLE_INDEX_IS_INITIALIZED t h"
  "TABLE_INDEX_IS_INITIALIZED (t\<lparr>a_nelts := n\<rparr>) h = TABLE_INDEX_IS_INITIALIZED t h"
  "TABLE_INDEX_IS_INITIALIZED (t\<lparr>a_nalloc := m\<rparr>) h = TABLE_INDEX_IS_INITIALIZED t h"
  by (simp_all add: TABLE_INDEX_IS_INITIALIZED_def)

lemma initialized_zero [simp]:
  "\<not> TABLE_INDEX_IS_INITIALIZED (t\<lparr>index_initialized := 0\<rparr>) h"
  by (simp add: TABLE_INDEX_IS_INITIALIZED_def)

lemma set_initialized_fields [simp]:
  "a_elts (TABLE_SET_INDEX_INITIALIZED t h) = a_elts t"
  "a_nelts (TABLE_SET_INDEX_INITIALIZED t h) = a_nelts t"
  "a_nalloc (TABLE_SET_INDEX_INITIALIZED t h) = a_nalloc t"
  "index_first (TABLE_SET_INDEX_INITIALIZED t h) = index_first t"
  "index_last (TABLE_SET_INDEX_INITIALIZED t h) = index_last t"
  by (simp_all add: TABLE_SET_INDEX_INITIALIZED_def)

lemma reindex_body_step:
  assumes "reindexed t n t1"
  shows "reindexed t (Suc n) (reindex_body n t1)"
proof -
  let ?h = "TABLE_HASH (the (key (a_elts t ! n)))"
  have h32: "?h < 32" by (rule TABLE_HASH_less)
  from assms have e: "a_elts t1 = a_elts t" by (simp add: reindexed_def)
  show ?thesis
  proof (cases "TABLE_INDEX_IS_INITIALIZED t1 ?h")
    case True
    then have "reindex_body n t1 = t1\<lparr>index_last := (index_last t1)(?h := n)\<rparr>"
      by (simp add: reindex_body_def e Let_def)
    with assms True show ?thesis
      unfolding reindexed_def
      by (auto simp add: less_Suc_eq)
  next
    case False
    then have "reindex_body n t1 =
        TABLE_SET_INDEX_INITIALIZED
          (t1\<lparr>index_last := (index_last t1)(?h := n), index_first := (index_first t1)(?h := n)\<rparr>) ?h"
      by (simp add: reindex_body_def e Let_def)
    with assms False h32 show ?thesis
      unfolding reindexed_def
      by (auto simp add: less_Suc_eq initialized_set)
  qed
qed

lemma reindex_fold:
  "reindexed t n (fold reindex_body [0..<n] (t\<lparr>index_initialized := 0\<rparr>))"
proof (induction n)
  case 0
  show ?case by (simp add: reindexed_def)
next
  case (Suc n)
  then show ?case by (simp add: reindex_body_step)
qed

lemma table_reindex_fields [simp]:
  "a_elts (table_reindex t) = a_elts t"
  "a_nelts (table_reindex t) = a_nelts t"
  "a_nalloc (table_reindex t) = a_nalloc t"
  using reindex_fold [of t "a_nelts t"] by (simp_all add: table_reindex_def reindexed_def)

lemma table_reindex_inv:
  assumes "a_nelts t \<le> length (a_elts t)"
    and "\<forall>i<a_nelts t. entry_wf sc (a_elts t ! i)"
  shows "table_inv sc (table_reindex t)"
  using assms reindex_fold [of t "a_nelts t"]
  unfolding table_inv_iff entry_ok_iff
  by (simp add: reindexed_def table_reindex_def)

lemma entries_reindex [simp]: "entries (table_reindex t) = entries t"
  by (simp add: entries_def)

lemma inv_wf: "table_inv sc t \<Longrightarrow> i < a_nelts t \<Longrightarrow> entry_wf sc (a_elts t ! i)"
  by (simp add: table_inv_iff entry_ok_iff)

lemma key_eq_has_key:
  assumes "entry_wf sc e"
  shows "key_eq (COMPUTE_KEY_CHECKSUM sc k) k e \<longleftrightarrow> has_key k e"
proof -
  from assms obtain ek where ek: "key e = Some ek" "key_checksum e = COMPUTE_KEY_CHECKSUM sc ek"
    by (auto simp add: entry_wf_def split: option.splits)
  show ?thesis
    using checksum_strcasecmp [of ek k sc] by (auto simp add: key_eq_def has_key_def ek)
qed

lemma inv_range:
  assumes "table_inv sc t" "i < a_nelts t" "has_key k (a_elts t ! i)"
  shows "TABLE_INDEX_IS_INITIALIZED t (TABLE_HASH k) \<and>
         index_first t (TABLE_HASH k) \<le> i \<and> i \<le> index_last t (TABLE_HASH k)"
proof -
  from assms(3) obtain ek where ek: "key (a_elts t ! i) = Some ek" "strcasecmp ek k = 0"
    by (auto simp add: has_key_def split: option.splits)
  from assms(1,2) have "entry_ok sc t i" by (simp add: table_inv_iff)
  with ek TABLE_HASH_strcasecmp [OF ek(2)] show ?thesis
    by (simp add: entry_ok_def)
qed

lemma inv_last:
  "table_inv sc t \<Longrightarrow> TABLE_INDEX_IS_INITIALIZED t h \<Longrightarrow> index_last t h < a_nelts t"
  by (simp add: table_inv_iff)

lemma nth_entries: "i < a_nelts t \<Longrightarrow> entries t ! i = a_elts t ! i"
  by (simp add: entries_def)

lemma length_entries: "a_nelts t \<le> length (a_elts t) \<Longrightarrow> length (entries t) = a_nelts t"
  by (simp add: entries_def)

text \<open>What the bucket scan finds in a well-formed table: the first entry with the key.\<close>

lemma find_key_inv_Some:
  assumes inv: "table_inv sc t"
    and f: "find_key (a_elts t) (COMPUTE_KEY_CHECKSUM sc k) k
              (index_first t (TABLE_HASH k)) (index_last t (TABLE_HASH k)) = Some p"
    and i: "TABLE_INDEX_IS_INITIALIZED t (TABLE_HASH k)"
  shows "p < a_nelts t \<and> p \<le> index_last t (TABLE_HASH k) \<and> has_key k (a_elts t ! p) \<and>
         (\<forall>j<p. \<not> has_key k (a_elts t ! j))"
proof -
  note fk = find_key_Some [OF f]
  from fk inv_last [OF inv i] have p: "p < a_nelts t" by simp
  from fk p have hp: "has_key k (a_elts t ! p)"
    using key_eq_has_key [OF inv_wf [OF inv p]] by simp
  have "\<not> has_key k (a_elts t ! j)" if "j < p" for j
  proof
    assume h: "has_key k (a_elts t ! j)"
    from that p have j: "j < a_nelts t" by simp
    from inv_range [OF inv j h] that fk have "\<not> key_eq (COMPUTE_KEY_CHECKSUM sc k) k (a_elts t ! j)"
      by simp
    with h key_eq_has_key [OF inv_wf [OF inv j]] show False by simp
  qed
  with p hp fk show ?thesis by simp
qed

lemma find_key_inv_None:
  assumes inv: "table_inv sc t"
    and f: "find_key (a_elts t) (COMPUTE_KEY_CHECKSUM sc k) k
              (index_first t (TABLE_HASH k)) (index_last t (TABLE_HASH k)) = None"
    and j: "j < a_nelts t"
  shows "\<not> has_key k (a_elts t ! j)"
proof
  assume h: "has_key k (a_elts t ! j)"
  from inv_range [OF inv j h] find_key_None [OF f, of j]
  have "\<not> key_eq (COMPUTE_KEY_CHECKSUM sc k) k (a_elts t ! j)" by simp
  with h key_eq_has_key [OF inv_wf [OF inv j]] show False by simp
qed

lemma uninitialized_no_key:
  assumes "table_inv sc t" "\<not> TABLE_INDEX_IS_INITIALIZED t (TABLE_HASH k)" "j < a_nelts t"
  shows "\<not> has_key k (a_elts t ! j)"
  using inv_range [OF assms(1,3)] assms(2) by blast

lemma find_first:
  assumes "p < length xs" "P (xs ! p)" "\<forall>j<p. \<not> P (xs ! j)"
  shows "find P xs = Some (xs ! p)"
  using assms by (auto simp add: find_Some_iff)

lemma find_none: "\<forall>j<length xs. \<not> P (xs ! j) \<Longrightarrow> find P xs = None"
  by (auto simp add: find_None_iff in_set_conv_nth)

lemma get_spec:
  assumes inv: "table_inv sc t"
  shows "xm_table_get sc t (Some k) = map_option val (find (has_key k) (entries t))"
proof -
  from inv have len: "length (entries t) = a_nelts t"
    by (simp add: table_inv_iff length_entries)
  show ?thesis
  proof (cases "TABLE_INDEX_IS_INITIALIZED t (TABLE_HASH k)")
    case False
    with uninitialized_no_key [OF inv False] have "find (has_key k) (entries t) = None"
      by (intro find_none) (simp add: len nth_entries)
    with False show ?thesis by (simp add: xm_table_get_def)
  next
    case True
    show ?thesis
    proof (cases "find_key (a_elts t) (COMPUTE_KEY_CHECKSUM sc k) k
              (index_first t (TABLE_HASH k)) (index_last t (TABLE_HASH k))")
      case None
      with find_key_inv_None [OF inv None] have "find (has_key k) (entries t) = None"
        by (intro find_none) (simp add: len nth_entries)
      with True None show ?thesis by (simp add: xm_table_get_def)
    next
      case (Some p)
      from find_key_inv_Some [OF inv Some True]
      have "find (has_key k) (entries t) = Some (entries t ! p)"
        by (intro find_first) (simp_all add: len nth_entries)
      with find_key_inv_Some [OF inv Some True] True Some show ?thesis
        by (simp add: xm_table_get_def nth_entries)
    qed
  qed
qed

section \<open>Appending an entry: \<open>table_push\<close>, \<open>xm_table_make\<close>, \<open>xm_table_add\<close>\<close>

lemma in_slots:
  "x \<in> set (slots es i j) \<Longrightarrow> j \<le> length es \<Longrightarrow> \<exists>m. i \<le> m \<and> m < j \<and> x = es ! m"
proof -
  assume x: "x \<in> set (slots es i j)" and j: "j \<le> length es"
  then obtain q where q: "q < length (slots es i j)" "x = slots es i j ! q"
    by (auto simp add: in_set_conv_nth)
  with j have "q < j - i" by (simp add: slots_def)
  with q j have "x = es ! (i + q)" by (simp add: slots_def)
  with \<open>q < j - i\<close> show ?thesis by (intro exI [of _ "i + q"]) simp
qed

lemma in_take:
  "x \<in> set (take p es) \<Longrightarrow> p \<le> length es \<Longrightarrow> \<exists>m<p. x = es ! m"
  by (auto simp add: in_set_conv_nth)

lemma slots_length: "j \<le> length es \<Longrightarrow> length (slots es i j) = j - i"
  by (simp add: slots_def)

lemma take_split3:
  assumes "p \<le> L" "L < N" "N \<le> length es"
  shows "take N es = take p es @ es ! p # slots es (Suc p) (Suc L) @ slots es (Suc L) N"
proof -
  have a: "take N es = take p es @ slots es p N"
    using assms take_add [of p "N - p" es] by (simp add: slots_def)
  have b: "slots es p N = es ! p # slots es (Suc p) N"
    using assms by (simp add: slots_Cons)
  have "slots es (Suc p) N = slots es (Suc p) (Suc L) @ slots es (Suc L) N"
  proof -
    have "take (N - Suc p) (drop (Suc p) es) =
          take (L - p) (drop (Suc p) es) @ take (N - Suc L) (drop (L - p) (drop (Suc p) es))"
      using assms take_add [of "L - p" "N - Suc L" "drop (Suc p) es"] by simp
    with assms show ?thesis by (simp add: slots_def)
  qed
  with a b show ?thesis by simp
qed


lemma table_push_fields [simp]:
  "a_nelts (table_push t e) = a_nelts t + 1"
  "index_first (table_push t e) = index_first t"
  "index_last (table_push t e) = index_last t"
  "index_initialized (table_push t e) = index_initialized t"
  by (simp_all add: table_push_def Let_def)

lemma table_push_initialized [simp]:
  "TABLE_INDEX_IS_INITIALIZED (table_push t e) h = TABLE_INDEX_IS_INITIALIZED t h"
  by (simp add: TABLE_INDEX_IS_INITIALIZED_def)

lemma table_push_elts:
  assumes "a_nelts t \<le> length (a_elts t)"
  shows "a_nelts t < length (a_elts (table_push t e))"
    and "a_elts (table_push t e) ! a_nelts t = e"
    and "i < a_nelts t \<Longrightarrow> a_elts (table_push t e) ! i = a_elts t ! i"
    and "entries (table_push t e) = entries t @ [e]"
  using assms
  by (auto simp add: table_push_def Let_def entries_def nth_append take_Suc_conv_app_nth)

lemma make_inv: "table_inv sc (xm_table_make raw n)"
  by (simp add: table_inv_iff xm_table_make_def)

lemma entries_make: "entries (xm_table_make raw n) = []"
  by (simp add: entries_def xm_table_make_def)

lemma entry_ok_cong:
  assumes "a_elts t' ! i = a_elts t ! i"
    and "\<And>h. TABLE_INDEX_IS_INITIALIZED t h \<Longrightarrow> TABLE_INDEX_IS_INITIALIZED t' h \<and>
            index_first t' h \<le> i \<and> (index_first t h \<le> i \<longrightarrow> index_first t' h \<le> i) \<and>
            (i \<le> index_last t h \<longrightarrow> i \<le> index_last t' h)"
    and "entry_ok sc t i"
  shows "entry_ok sc t' i"
  using assms by (auto simp add: entry_ok_def split: option.splits)

lemma push_inv:
  assumes len: "a_nelts t \<le> length (a_elts t)"
    and old: "\<forall>i<a_nelts t. entry_ok sc t i"
    and new: "TABLE_INDEX_IS_INITIALIZED t (TABLE_HASH k)"
       "index_first t (TABLE_HASH k) \<le> a_nelts t" "index_last t (TABLE_HASH k) = a_nelts t"
    and buckets: "\<forall>h. TABLE_INDEX_IS_INITIALIZED t h \<longrightarrow>
                   index_first t h \<le> index_last t h \<and> index_last t h \<le> a_nelts t"
  shows "table_inv sc (table_push t \<lparr>key = Some k, val = v, key_checksum = COMPUTE_KEY_CHECKSUM sc k\<rparr>)"
proof -
  let ?e = "\<lparr>key = Some k, val = v, key_checksum = COMPUTE_KEY_CHECKSUM sc k\<rparr>"
  let ?t = "table_push t ?e"
  note pe = table_push_elts [OF len, where e = ?e]
  have "entry_ok sc ?t i" if "i < a_nelts t + 1" for i
  proof (cases "i = a_nelts t")
    case True
    with new pe(2) show ?thesis by (simp add: entry_ok_def)
  next
    case False
    with that have i: "i < a_nelts t" by simp
    with old have "entry_ok sc t i" by simp
    with pe(3) [OF i] show ?thesis
      by (auto simp add: entry_ok_def split: option.splits)
  qed
  with pe(1) buckets show ?thesis
    by (auto simp add: table_inv_iff less_Suc_eq_le)
qed

lemma add_inv:
  assumes inv: "table_inv sc t"
  shows "table_inv sc (xm_table_add sc t k v)"
proof -
  let ?h = "TABLE_HASH k"
  have h32: "?h < 32" by (rule TABLE_HASH_less)
  let ?t1 = "t\<lparr>index_last := (index_last t)(?h := a_nelts t)\<rparr>"
  let ?t2 = "if \<not> TABLE_INDEX_IS_INITIALIZED ?t1 ?h
             then TABLE_SET_INDEX_INITIALIZED (?t1\<lparr>index_first := (index_first ?t1)(?h := a_nelts ?t1)\<rparr>) ?h
             else ?t1"
  from inv have len: "a_nelts t \<le> length (a_elts t)"
    and old: "\<forall>i<a_nelts t. entry_ok sc t i"
    and b: "\<forall>h. TABLE_INDEX_IS_INITIALIZED t h \<longrightarrow>
              index_first t h \<le> index_last t h \<and> index_last t h < a_nelts t"
    by (simp_all add: table_inv_iff)
  have "table_inv sc (table_push ?t2 \<lparr>key = Some k, val = v, key_checksum = COMPUTE_KEY_CHECKSUM sc k\<rparr>)"
  proof (rule push_inv)
    show "a_nelts ?t2 \<le> length (a_elts ?t2)" using len by simp
    show "\<forall>i<a_nelts ?t2. entry_ok sc ?t2 i"
    proof (intro allI impI)
      fix i assume "i < a_nelts ?t2"
      then have i: "i < a_nelts t" by (simp split: if_splits)
      with old have "entry_ok sc t i" by simp
      then show "entry_ok sc ?t2 i"
        using i h32 by (auto simp add: entry_ok_def initialized_set split: option.splits)
    qed
    show "TABLE_INDEX_IS_INITIALIZED ?t2 ?h" using h32 by (simp add: initialized_set)
    show "index_first ?t2 ?h \<le> a_nelts ?t2" using b by (auto simp add: less_imp_le)
    show "index_last ?t2 ?h = a_nelts ?t2" by simp
    show "\<forall>h. TABLE_INDEX_IS_INITIALIZED ?t2 h \<longrightarrow>
                   index_first ?t2 h \<le> index_last ?t2 h \<and> index_last ?t2 h \<le> a_nelts ?t2"
      using b h32 by (auto simp add: initialized_set less_imp_le)
  qed
  then show ?thesis
    by (simp add: xm_table_add_def Let_def xm_pstrdup_def)
qed

lemma entries_add:
  assumes "a_nelts t \<le> length (a_elts t)"
  shows "entries (xm_table_add sc t k v) =
         entries t @ [\<lparr>key = Some k, val = v, key_checksum = COMPUTE_KEY_CHECKSUM sc k\<rparr>]"
proof -
  have "entries (table_push t' e) = entries t @ [e]"
    if "a_elts t' = a_elts t" "a_nelts t' = a_nelts t" for t' e
    using table_push_elts(4) [where t = t' and e = e] that assms by (simp add: entries_def)
  then show ?thesis
    by (simp add: xm_table_add_def Let_def xm_pstrdup_def)
qed

lemma set_append_eq_add:
  assumes "\<not> TABLE_INDEX_IS_INITIALIZED t (TABLE_HASH k) \<or>
     find_key (a_elts t) (COMPUTE_KEY_CHECKSUM sc k) k (index_first t (TABLE_HASH k))
        (index_last t (TABLE_HASH k)) = None"
  shows "xm_table_set sc t k v = xm_table_add sc t k v"
  using assms
  by (auto simp add: xm_table_set_def xm_table_add_def add_new_elt_def Let_def
      TABLE_SET_INDEX_INITIALIZED_def TABLE_INDEX_IS_INITIALIZED_def table_push_def)

section \<open>\<open>xm_table_unset\<close> removes exactly the entries of the key\<close>

text \<open>The shape of the active entries around the first match of a key.\<close>

lemma bucket_split:
  assumes inv: "table_inv sc t"
    and f: "find_key (a_elts t) (COMPUTE_KEY_CHECKSUM sc k) k
              (index_first t (TABLE_HASH k)) (index_last t (TABLE_HASH k)) = Some p"
    and i: "TABLE_INDEX_IS_INITIALIZED t (TABLE_HASH k)"
  defines "L \<equiv> index_last t (TABLE_HASH k)"
  shows "p \<le> L" "L < a_nelts t" "a_nelts t \<le> length (a_elts t)"
    and "entries t = take p (a_elts t) @ a_elts t ! p #
           slots (a_elts t) (Suc p) (Suc L) @ slots (a_elts t) (Suc L) (a_nelts t)"
    and "has_key k (a_elts t ! p)"
    and "entry_wf sc (a_elts t ! p)"
    and "\<forall>e\<in>set (take p (a_elts t)). entry_wf sc e \<and> \<not> has_key k e"
    and "\<forall>e\<in>set (slots (a_elts t) (Suc L) (a_nelts t)). entry_wf sc e \<and> \<not> has_key k e"
    and "\<forall>e\<in>set (slots (a_elts t) (Suc p) (Suc L)).
           entry_wf sc e \<and> (key_eq (COMPUTE_KEY_CHECKSUM sc k) k e \<longleftrightarrow> has_key k e)"
proof -
  note fk = find_key_inv_Some [OF inv f i]
  from fk show pL: "p \<le> L" by (simp add: L_def)
  from inv_last [OF inv i] show LN: "L < a_nelts t" by (simp add: L_def)
  from inv show len: "a_nelts t \<le> length (a_elts t)" by (simp add: table_inv_iff)
  from take_split3 [OF pL LN len]
  show "entries t = take p (a_elts t) @ a_elts t ! p #
           slots (a_elts t) (Suc p) (Suc L) @ slots (a_elts t) (Suc L) (a_nelts t)"
    by (simp add: entries_def)
  from fk show "has_key k (a_elts t ! p)" by simp
  from fk inv_wf [OF inv] show "entry_wf sc (a_elts t ! p)" by simp
  show "\<forall>e\<in>set (take p (a_elts t)). entry_wf sc e \<and> \<not> has_key k e"
  proof
    fix e assume "e \<in> set (take p (a_elts t))"
    with in_take [of e p "a_elts t"] fk len obtain m where "m < p" "e = a_elts t ! m"
      by auto
    with fk inv_wf [OF inv, of m] show "entry_wf sc e \<and> \<not> has_key k e" by simp
  qed
  show "\<forall>e\<in>set (slots (a_elts t) (Suc L) (a_nelts t)). entry_wf sc e \<and> \<not> has_key k e"
  proof
    fix e assume "e \<in> set (slots (a_elts t) (Suc L) (a_nelts t))"
    with in_slots [of e "a_elts t" "Suc L" "a_nelts t"] len
    obtain m where m: "Suc L \<le> m" "m < a_nelts t" "e = a_elts t ! m" by auto
    with inv_range [OF inv m(2), of k] have "\<not> has_key k e" by (auto simp add: L_def)
    with m inv_wf [OF inv m(2)] show "entry_wf sc e \<and> \<not> has_key k e" by simp
  qed
  show "\<forall>e\<in>set (slots (a_elts t) (Suc p) (Suc L)).
           entry_wf sc e \<and> (key_eq (COMPUTE_KEY_CHECKSUM sc k) k e \<longleftrightarrow> has_key k e)"
  proof
    fix e assume "e \<in> set (slots (a_elts t) (Suc p) (Suc L))"
    with in_slots [of e "a_elts t" "Suc p" "Suc L"] len LN
    obtain m where m: "m < Suc L" "e = a_elts t ! m" by auto
    with LN have "m < a_nelts t" by simp
    from inv_wf [OF inv this] m key_eq_has_key [of sc e k]
    show "entry_wf sc e \<and> (key_eq (COMPUTE_KEY_CHECKSUM sc k) k e \<longleftrightarrow> has_key k e)" by simp
  qed
qed

lemma filter_all: "\<forall>x\<in>set xs. P x \<Longrightarrow> filter P xs = xs"
  by (simp add: filter_id_conv)

lemma entries_wf: "table_inv sc t \<Longrightarrow> e \<in> set (entries t) \<Longrightarrow> entry_wf sc e"
proof -
  assume inv: "table_inv sc t" and e: "e \<in> set (entries t)"
  from inv have "a_nelts t \<le> length (a_elts t)" by (simp add: table_inv_iff)
  with e in_take [of e "a_nelts t" "a_elts t"] obtain m where "m < a_nelts t" "e = a_elts t ! m"
    by (auto simp add: entries_def)
  with inv_wf [OF inv] show ?thesis by simp
qed

lemma wf_prefix_inv:
  assumes "n \<le> length es" "\<forall>e\<in>set (take n es). entry_wf sc e"
  shows "table_inv sc (table_reindex (t\<lparr>a_elts := es, a_nelts := n\<rparr>))"
proof (rule table_reindex_inv)
  show "a_nelts (t\<lparr>a_elts := es, a_nelts := n\<rparr>) \<le> length (a_elts (t\<lparr>a_elts := es, a_nelts := n\<rparr>))"
    using assms by simp
  show "\<forall>i<a_nelts (t\<lparr>a_elts := es, a_nelts := n\<rparr>).
      entry_wf sc (a_elts (t\<lparr>a_elts := es, a_nelts := n\<rparr>) ! i)"
  proof (intro allI impI)
    fix i assume "i < a_nelts (t\<lparr>a_elts := es, a_nelts := n\<rparr>)"
    then have "i < n" by simp
    with assms have "take n es ! i = es ! i" "i < length (take n es)" by simp_all
    then have "es ! i \<in> set (take n es)" by (metis nth_mem)
    with assms show "entry_wf sc (a_elts (t\<lparr>a_elts := es, a_nelts := n\<rparr>) ! i)" by simp
  qed
qed

lemma unset_found:
  assumes inv: "table_inv sc t"
    and f: "find_key (a_elts t) (COMPUTE_KEY_CHECKSUM sc k) k
              (index_first t (TABLE_HASH k)) (index_last t (TABLE_HASH k)) = Some p"
    and i: "TABLE_INDEX_IS_INITIALIZED t (TABLE_HASH k)"
  shows "table_inv sc (xm_table_unset sc t k) \<and>
         entries (xm_table_unset sc t k) = filter (\<lambda>e. \<not> has_key k e) (entries t)"
proof -
  let ?cs = "COMPUTE_KEY_CHECKSUM sc k"
  let ?L = "index_last t (TABLE_HASH k)"
  let ?N = "a_nelts t"
  let ?es = "a_elts t"
  let ?S = "slots ?es (Suc p) (Suc ?L)"
  let ?R = "slots ?es (Suc ?L) ?N"
  note bs = bucket_split [OF inv f i]
  obtain es1 n1 d1 where r1: "unset_remove_dups ?cs k ?L (?es, ?N - 1, p) (p + 1) = (es1, n1, d1)"
    by (metis prod_cases3)
  from bs(1,2,3) have "p \<le> p + 1" "p + 1 \<le> Suc ?L" "?L < length ?es" by simp_all
  from unset_remove_dups_spec [OF this r1]
  have l1: "length es1 = length ?es" and d1L: "d1 \<le> Suc ?L"
    and t1: "take d1 es1 = take p ?es @ filter (\<lambda>e. \<not> key_eq ?cs k e) ?S"
    and dr1: "drop (Suc ?L) es1 = drop (Suc ?L) ?es"
    and n1: "n1 = ?N - 1 - length (filter (key_eq ?cs k) ?S)"
    by simp_all
  define es2 where "es2 = shift_rest es1 d1 (?L + 1) ?N"
  from d1L bs(3) l1 have "d1 \<le> ?L + 1" "?N \<le> length es1" by simp_all
  from shift_rest_spec [OF this es2_def [symmetric]]
  have l2: "length es2 = length es1"
    and t2: "take (d1 + (?N - (?L + 1))) es2 = take d1 es1 @ slots es1 (?L + 1) ?N" by simp_all
  have R: "slots es1 (?L + 1) ?N = ?R" by (simp add: slots_def dr1)
  have lenS: "length ?S = ?L - p" using bs(2,3) by (simp add: slots_length)
  have cnt: "length (filter (key_eq ?cs k) ?S) + length (filter (\<lambda>e. \<not> key_eq ?cs k e) ?S) = ?L - p"
    using sum_length_filter_compl [of "key_eq ?cs k" ?S] lenS by simp
  from d1L bs(2,3) l1 have "length (take d1 es1) = d1" by simp
  moreover from bs(1,2,3) have "length (take p ?es) = p" by simp
  ultimately have "d1 = p + length (filter (\<lambda>e. \<not> key_eq ?cs k e) ?S)"
    using arg_cong [OF t1, of length] by simp
  with cnt n1 bs(1,2) have dn: "d1 + (?N - (?L + 1)) = n1" by simp
  have fS: "filter (\<lambda>e. \<not> key_eq ?cs k e) ?S = filter (\<lambda>e. \<not> has_key k e) ?S"
    using bs(9) by (intro filter_cong) auto
  have ent: "take n1 es2 = filter (\<lambda>e. \<not> has_key k e) (entries t)"
    using t2 bs(5,7,8) unfolding dn R t1 fS bs(4)
    by (simp add: filter_all)
  have n1len: "n1 \<le> length es2" using n1 bs(3) l1 l2 by simp
  have "\<forall>e\<in>set (take n1 es2). entry_wf sc e"
    unfolding ent using entries_wf [OF inv] by simp
  from wf_prefix_inv [OF n1len this, of t]
  have "table_inv sc (table_reindex (t\<lparr>a_elts := es2, a_nelts := n1\<rparr>))" .
  moreover have "xm_table_unset sc t k = table_reindex (t\<lparr>a_elts := es2, a_nelts := n1\<rparr>)"
    using i f r1 by (simp add: xm_table_unset_def Let_def es2_def)
  ultimately show ?thesis
    using ent by (simp add: entries_def)
qed

lemma unset_spec:
  assumes inv: "table_inv sc t"
  shows "table_inv sc (xm_table_unset sc t k) \<and>
         entries (xm_table_unset sc t k) = filter (\<lambda>e. \<not> has_key k e) (entries t)"
proof -
  from inv have len: "length (entries t) = a_nelts t"
    by (simp add: table_inv_iff length_entries)
  have none: "filter (\<lambda>e. \<not> has_key k e) (entries t) = entries t"
    if "\<And>j. j < a_nelts t \<Longrightarrow> \<not> has_key k (a_elts t ! j)"
  proof (rule filter_all, rule ballI)
    fix e assume "e \<in> set (entries t)"
    then obtain j where "j < a_nelts t" "e = a_elts t ! j"
      using len by (auto simp add: in_set_conv_nth nth_entries)
    with that show "\<not> has_key k e" by simp
  qed
  show ?thesis
  proof (cases "TABLE_INDEX_IS_INITIALIZED t (TABLE_HASH k)")
    case False
    with none [OF uninitialized_no_key [OF inv False]] inv show ?thesis
      by (simp add: xm_table_unset_def)
  next
    case True
    show ?thesis
    proof (cases "find_key (a_elts t) (COMPUTE_KEY_CHECKSUM sc k) k
              (index_first t (TABLE_HASH k)) (index_last t (TABLE_HASH k))")
      case None
      with none [OF find_key_inv_None [OF inv None]] inv True show ?thesis
        by (simp add: xm_table_unset_def)
    next
      case (Some p)
      from unset_found [OF inv Some True] show ?thesis .
    qed
  qed
qed

section \<open>\<open>xm_table_set\<close> overwrites the first entry of the key and removes the others\<close>

lemma has_key_val [simp]: "has_key k (e\<lparr>val := v\<rparr>) = has_key k e"
  by (simp add: has_key_def)

lemma entry_wf_val [simp]: "entry_wf sc (e\<lparr>val := v\<rparr>) = entry_wf sc e"
  by (simp add: entry_wf_def split: option.splits)

lemma key_eq_val [simp]: "key_eq cs k (e\<lparr>val := v\<rparr>) = key_eq cs k e"
  by (simp add: key_eq_def)

lemma entries_upd:
  "entries (t\<lparr>a_elts := es\<rparr>) = take (a_nelts t) es"
  "entries (t\<lparr>a_elts := es, a_nelts := n\<rparr>) = take n es"
  by (simp_all add: entries_def)

lemma set_entries_found:
  "\<forall>e\<in>set xs. \<not> has_key k e \<Longrightarrow> has_key k e \<Longrightarrow>
   set_entries k v new (xs @ e # ys) = xs @ e\<lparr>val := v\<rparr> # filter (\<lambda>x. \<not> has_key k x) ys"
  by (induction xs) simp_all

lemma set_entries_none:
  "\<forall>e\<in>set xs. \<not> has_key k e \<Longrightarrow> set_entries k v new xs = xs @ [new]"
  by (induction xs) simp_all

lemma set_found:
  assumes inv: "table_inv sc t"
    and f: "find_key (a_elts t) (COMPUTE_KEY_CHECKSUM sc k) k
              (index_first t (TABLE_HASH k)) (index_last t (TABLE_HASH k)) = Some p"
    and i: "TABLE_INDEX_IS_INITIALIZED t (TABLE_HASH k)"
  shows "table_inv sc (xm_table_set sc t k v) \<and>
         entries (xm_table_set sc t k v) = set_entries k v new (entries t)"
proof -
  let ?cs = "COMPUTE_KEY_CHECKSUM sc k"
  let ?L = "index_last t (TABLE_HASH k)"
  let ?N = "a_nelts t"
  let ?es = "a_elts t"
  let ?e' = "(?es ! p)\<lparr>val := v\<rparr>"
  let ?upd = "?es[p := ?e']"
  let ?S = "slots ?es (Suc p) (Suc ?L)"
  let ?R = "slots ?es (Suc ?L) ?N"
  note bs = bucket_split [OF inv f i]
  have spec: "set_entries k v new (entries t) =
      take p ?es @ ?e' # filter (\<lambda>e. \<not> has_key k e) ?S @ ?R"
    unfolding bs(4) using bs(5,7,8) by (simp add: set_entries_found filter_all)
  have S0: "slots ?upd (Suc p) (Suc ?L) = ?S" by (simp add: slots_update)
  have tp: "take (Suc p) ?upd = take p ?es @ [?e']"
    using bs(1,2,3) by (simp add: take_Suc_update)
  obtain es1 n1 dst1 mr1 where
    r1: "set_remove_dups ?cs k ?L (?upd, ?N, None, False) (p + 1) = (es1, n1, dst1, mr1)"
    by (metis prod_cases4)
  from bs(1,2,3) have "p + 1 \<le> Suc ?L" "?L < length ?upd"
     "case None :: nat option of Some d \<Rightarrow> d < p + 1 | None \<Rightarrow> True" by simp_all
  note srd = set_remove_dups_spec [OF this r1]
  from srd bs(1)
  have l1: "length es1 = length ?es"
    and dr1: "drop (Suc ?L) es1 = drop (Suc ?L) ?es"
    and n1: "n1 = ?N - length (filter (key_eq ?cs k) ?S)"
    by (simp_all add: S0)
  from srd bs(1,2,3) have c1: "case dst1 of
        None \<Rightarrow> es1 = ?upd \<and> mr1 = False \<and> filter (key_eq ?cs k) ?S = []
      | Some d' \<Rightarrow> d' \<le> Suc ?L \<and>
          take d' es1 = take p ?es @ ?e' # filter (\<lambda>e. \<not> key_eq ?cs k e) ?S"
    by (cases dst1) (simp_all add: S0 tp)
  have fS: "filter (\<lambda>e. \<not> key_eq ?cs k e) ?S = filter (\<lambda>e. \<not> has_key k e) ?S"
    using bs(9) by (intro filter_cong) auto
  have lenS: "length ?S = ?L - p" using bs(2,3) by (simp add: slots_length)
  have cnt: "length (filter (key_eq ?cs k) ?S) + length (filter (\<lambda>e. \<not> key_eq ?cs k e) ?S) = ?L - p"
    using sum_length_filter_compl [of "key_eq ?cs k" ?S] lenS by simp
  show ?thesis
  proof (cases dst1)
    case None
    with c1 have e1: "es1 = ?upd" and mr: "mr1 = False" and nodup: "filter (key_eq ?cs k) ?S = []"
      by simp_all
    from nodup n1 have n1N: "n1 = ?N" by simp
    have res: "xm_table_set sc t k v = t\<lparr>a_elts := ?upd, a_nelts := ?N\<rparr>"
      using i f r1 None e1 mr n1N by (simp add: xm_table_set_def Let_def xm_pstrdup_def)
    from nodup have "\<forall>e\<in>set ?S. \<not> key_eq ?cs k e" by (simp add: filter_empty_conv)
    with bs(9) have "filter (\<lambda>e. \<not> has_key k e) ?S = ?S" by (intro filter_all) auto
    with spec have spec': "set_entries k v new (entries t) = take p ?es @ ?e' # ?S @ ?R" by simp
    have "take ?N ?upd = (take ?N ?es)[p := ?e']" by (simp add: take_update_swap)
    also have "\<dots> = take p ?es @ ?e' # ?S @ ?R"
      using bs(4) bs(1,2,3) by (simp add: entries_def list_update_append)
    finally have "take ?N ?upd = set_entries k v new (entries t)"
      by (simp only: spec')
    then have ent: "entries (t\<lparr>a_elts := ?upd, a_nelts := ?N\<rparr>) = set_entries k v new (entries t)"
      by (simp add: entries_upd)
    have "entry_ok sc (t\<lparr>a_elts := ?upd, a_nelts := ?N\<rparr>) j" if "j < ?N" for j
    proof -
      from inv that have "entry_ok sc t j" by (simp add: table_inv_iff)
      then show ?thesis
        using bs(3) that by (cases "j = p") (auto simp add: entry_ok_def split: option.splits)
    qed
    with inv have "table_inv sc (t\<lparr>a_elts := ?upd, a_nelts := ?N\<rparr>)"
      by (simp add: table_inv_iff)
    with res ent show ?thesis by simp
  next
    case (Some d1)
    with c1 have d1L: "d1 \<le> Suc ?L"
      and t1: "take d1 es1 = take p ?es @ ?e' # filter (\<lambda>e. \<not> key_eq ?cs k e) ?S" by simp_all
    define es2 where "es2 = shift_rest es1 d1 (?L + 1) ?N"
    from d1L bs(3) l1 have "d1 \<le> ?L + 1" "?N \<le> length es1" by simp_all
    from shift_rest_spec [OF this es2_def [symmetric]]
    have l2: "length es2 = length es1"
      and t2: "take (d1 + (?N - (?L + 1))) es2 = take d1 es1 @ slots es1 (?L + 1) ?N" by simp_all
    have R: "slots es1 (?L + 1) ?N = ?R" by (simp add: slots_def dr1)
    from d1L bs(2,3) l1 have "length (take d1 es1) = d1" by simp
    moreover from bs(1,2,3) have "length (take p ?es) = p" by simp
    ultimately have "d1 = p + 1 + length (filter (\<lambda>e. \<not> key_eq ?cs k e) ?S)"
      using arg_cong [OF t1, of length] by simp
    with cnt n1 bs(1,2) have dn: "d1 + (?N - (?L + 1)) = n1" by simp
    have ent: "take n1 es2 = set_entries k v new (entries t)"
      using t2 unfolding dn R t1 fS spec by simp
    have n1len: "n1 \<le> length es2" using n1 bs(3) l1 l2 by simp
    have "\<forall>e\<in>set (take n1 es2). entry_wf sc e"
      unfolding ent spec using bs(6,7,8,9) by auto
    from wf_prefix_inv [OF n1len this, of t]
    have "table_inv sc (table_reindex (t\<lparr>a_elts := es2, a_nelts := n1\<rparr>))" .
    moreover have "xm_table_set sc t k v = table_reindex (t\<lparr>a_elts := es2, a_nelts := n1\<rparr>)"
      using i f r1 Some by (simp add: xm_table_set_def Let_def es2_def xm_pstrdup_def)
    ultimately show ?thesis
      using ent by (simp add: entries_def)
  qed
qed

lemma set_spec:
  assumes inv: "table_inv sc t"
  shows "table_inv sc (xm_table_set sc t k v) \<and>
         entries (xm_table_set sc t k v) =
           set_entries k v \<lparr>key = Some k, val = v, key_checksum = COMPUTE_KEY_CHECKSUM sc k\<rparr> (entries t)"
proof -
  from inv have len: "length (entries t) = a_nelts t" and le: "a_nelts t \<le> length (a_elts t)"
    by (simp_all add: table_inv_iff length_entries)
  have none: "\<forall>e\<in>set (entries t). \<not> has_key k e"
    if "\<And>j. j < a_nelts t \<Longrightarrow> \<not> has_key k (a_elts t ! j)"
  proof
    fix e assume "e \<in> set (entries t)"
    then obtain j where "j < a_nelts t" "e = a_elts t ! j"
      using len by (auto simp add: in_set_conv_nth nth_entries)
    with that show "\<not> has_key k e" by simp
  qed
  show ?thesis
  proof (cases "TABLE_INDEX_IS_INITIALIZED t (TABLE_HASH k)")
    case False
    then have "xm_table_set sc t k v = xm_table_add sc t k v"
      by (simp add: set_append_eq_add)
    with none [OF uninitialized_no_key [OF inv False]] add_inv [OF inv] entries_add [OF le]
    show ?thesis by (simp add: set_entries_none)
  next
    case True
    show ?thesis
    proof (cases "find_key (a_elts t) (COMPUTE_KEY_CHECKSUM sc k) k
              (index_first t (TABLE_HASH k)) (index_last t (TABLE_HASH k))")
      case None
      then have "xm_table_set sc t k v = xm_table_add sc t k v"
        by (simp add: set_append_eq_add)
      with none [OF find_key_inv_None [OF inv None]] add_inv [OF inv] entries_add [OF le]
      show ?thesis by (simp add: set_entries_none)
    next
      case (Some p)
      from set_found [OF inv Some True] show ?thesis .
    qed
  qed
qed

section \<open>Set, get and unset on well-formed tables\<close>

lemma has_key_new: "has_key k \<lparr>key = Some k, val = v, key_checksum = c\<rparr>"
  by (simp add: has_key_def strcasecmp_refl)

lemma set_entries_find:
  "has_key k new \<Longrightarrow> val new = v \<Longrightarrow>
   map_option val (find (has_key k) (set_entries k v new xs)) = Some v"
  by (induction xs) simp_all

lemma set_entries_count:
  "has_key k new \<Longrightarrow> length (filter (has_key k) (set_entries k v new xs)) = 1"
  by (induction xs) simp_all

lemma set_entries_idem:
  "has_key k new \<Longrightarrow> val new = v \<Longrightarrow>
   set_entries k v new (set_entries k v new xs) = set_entries k v new xs"
  by (induction xs) simp_all

lemma set_entries_others:
  "has_key k new \<Longrightarrow>
   filter (\<lambda>e. \<not> has_key k e) (set_entries k v new xs) = filter (\<lambda>e. \<not> has_key k e) xs"
  by (induction xs) simp_all

text \<open>
  Claim C3. In a well-formed table, \<open>get(K)\<close> after \<open>set(K, V)\<close> returns \<open>V\<close>
  and exactly one entry has the key \<open>K\<close> under \<open>strcasecmp\<close>; after a second
  \<open>set(K, V)\<close> the same holds and the number of entries has not grown.
\<close>

theorem set_get:
  assumes "table_inv sc t"
  shows "xm_table_get sc (xm_table_set sc t k v) (Some k) = Some v \<and>
         length (filter (has_key k) (entries (xm_table_set sc t k v))) = 1 \<and>
         xm_table_get sc (xm_table_set sc (xm_table_set sc t k v) k v) (Some k) = Some v \<and>
         length (filter (has_key k) (entries (xm_table_set sc (xm_table_set sc t k v) k v))) = 1 \<and>
         length (entries (xm_table_set sc (xm_table_set sc t k v) k v)) =
           length (entries (xm_table_set sc t k v))"
proof -
  let ?new = "\<lparr>key = Some k, val = v, key_checksum = COMPUTE_KEY_CHECKSUM sc k\<rparr>"
  let ?t1 = "xm_table_set sc t k v"
  let ?t2 = "xm_table_set sc ?t1 k v"
  have hk: "has_key k ?new" by (rule has_key_new)
  from set_spec [OF assms, of k v]
  have inv1: "table_inv sc ?t1" and e1: "entries ?t1 = set_entries k v ?new (entries t)"
    by simp_all
  from set_spec [OF inv1, of k v]
  have inv2: "table_inv sc ?t2" and e2: "entries ?t2 = set_entries k v ?new (entries ?t1)"
    by simp_all
  from e2 have e2': "entries ?t2 = entries ?t1"
    by (simp add: e1 set_entries_idem [OF hk])
  have g1: "xm_table_get sc ?t1 (Some k) = Some v"
    by (simp add: get_spec [OF inv1] e1 set_entries_find [OF hk])
  have g2: "xm_table_get sc ?t2 (Some k) = Some v"
    by (simp add: get_spec [OF inv2] e2' e1 set_entries_find [OF hk])
  have c1: "length (filter (has_key k) (entries ?t1)) = 1"
    by (simp add: e1 set_entries_count [OF hk])
  show ?thesis
    using g1 g2 c1 by (simp add: e2')
qed

theorem set_get_witness:
  "table_inv True
     (xm_table_add True (xm_table_add True (xm_table_add True
        (xm_table_make
           \<lparr>a_elts = [], a_nelts = 0, a_nalloc = 0, index_initialized = 0,
            index_first = (\<lambda>_. 0), index_last = (\<lambda>_. 0)\<rparr> 2)
        ''Host'' ''a'') ''Accept'' ''b'') ''HOST'' ''c'') \<and>
   xm_table_get True
     (xm_table_set True
       (xm_table_add True (xm_table_add True (xm_table_add True
        (xm_table_make
           \<lparr>a_elts = [], a_nelts = 0, a_nalloc = 0, index_initialized = 0,
            index_first = (\<lambda>_. 0), index_last = (\<lambda>_. 0)\<rparr> 2)
        ''Host'' ''a'') ''Accept'' ''b'') ''HOST'' ''c'')
       ''host'' ''v'') (Some ''host'') = Some ''v''"
proof -
  let ?t = "xm_table_add True (xm_table_add True (xm_table_add True
        (xm_table_make
           \<lparr>a_elts = [], a_nelts = 0, a_nalloc = 0, index_initialized = 0,
            index_first = (\<lambda>_. 0), index_last = (\<lambda>_. 0)\<rparr> 2)
        ''Host'' ''a'') ''Accept'' ''b'') ''HOST'' ''c''"
  have inv: "table_inv True ?t"
    by (intro add_inv make_inv)
  from set_get [OF inv, of "''host''" "''v''"] inv show ?thesis by simp
qed

text \<open>
  Claim C5. In a well-formed table, \<open>unset(K)\<close> leaves no entry whose key equals \<open>K\<close>
  under \<open>strcasecmp\<close>; the entries with other keys stay, with their values, in their
  order and number; and the table is left as it is when the bucket of \<open>K\<close> was never
  populated. The result is well-formed again.
\<close>

theorem unset_removes_key:
  assumes "table_inv sc t"
  shows "filter (has_key k) (entries (xm_table_unset sc t k)) = [] \<and>
         filter (\<lambda>e. \<not> has_key k e) (entries (xm_table_unset sc t k)) =
           filter (\<lambda>e. \<not> has_key k e) (entries t) \<and>
         entries (xm_table_unset sc t k) = filter (\<lambda>e. \<not> has_key k e) (entries t) \<and>
         (\<not> TABLE_INDEX_IS_INITIALIZED t (TABLE_HASH k) \<longrightarrow> xm_table_unset sc t k = t) \<and>
         table_inv sc (xm_table_unset sc t k)"
  using unset_spec [OF assms, of k]
  by (simp add: xm_table_unset_def [of sc t k])


theorem unset_removes_key_witness:
  "table_inv True
     (xm_table_add True (xm_table_add True (xm_table_add True
        (xm_table_make
           \<lparr>a_elts = [], a_nelts = 0, a_nalloc = 0, index_initialized = 0,
            index_first = (\<lambda>_. 0), index_last = (\<lambda>_. 0)\<rparr> 2)
        ''Host'' ''a'') ''Accept'' ''b'') ''HOST'' ''c'') \<and>
   filter (has_key ''host'')
     (entries (xm_table_unset True
       (xm_table_add True (xm_table_add True (xm_table_add True
        (xm_table_make
           \<lparr>a_elts = [], a_nelts = 0, a_nalloc = 0, index_initialized = 0,
            index_first = (\<lambda>_. 0), index_last = (\<lambda>_. 0)\<rparr> 2)
        ''Host'' ''a'') ''Accept'' ''b'') ''HOST'' ''c'')
       ''host'')) = []"
proof -
  let ?t = "xm_table_add True (xm_table_add True (xm_table_add True
        (xm_table_make
           \<lparr>a_elts = [], a_nelts = 0, a_nalloc = 0, index_initialized = 0,
            index_first = (\<lambda>_. 0), index_last = (\<lambda>_. 0)\<rparr> 2)
        ''Host'' ''a'') ''Accept'' ''b'') ''HOST'' ''c''"
  have inv: "table_inv True ?t"
    by (intro add_inv make_inv)
  from unset_removes_key [OF inv, of "''host''"] inv show ?thesis by simp
qed

section \<open>The invocations that \<open>xm_table_vdo\<close> makes\<close>

lemma run_calls_zero [simp]: "run_calls compf (rec, 0) es = (rec, 0)"
  by (cases es) simp_all

lemma vdo_bucket_calls:
  "last_i < length es \<Longrightarrow> i \<le> Suc last_i \<Longrightarrow>
   vdo_bucket compf es cs k last_i st i =
     run_calls compf st (filter (\<lambda>e. key e \<noteq> None \<and> key_eq cs k e) (slots es i (Suc last_i)))"
proof (induction compf es cs k last_i st i rule: vdo_bucket.induct)
  case (1 compf es cs k last_i rec rv i)
  note unf = vdo_bucket.simps [of compf es cs k last_i rec rv i]
  let ?P = "\<lambda>e. key e \<noteq> None \<and> key_eq cs k e"
  show ?case
  proof (cases "rv \<noteq> 0 \<and> i \<le> last_i")
    case False
    then have r: "vdo_bucket compf es cs k last_i (rec, rv) i = (rec, rv)"
      by (auto simp add: unf)
    show ?thesis
    proof (cases "rv = 0")
      case True
      then show ?thesis using r by simp
    next
      case nz: False
      with False "1.prems" have "i = Suc last_i" by simp
      then show ?thesis using r by (simp add: slots_empty)
    qed
  next
    case True
    with "1.prems" have sl: "slots es i (Suc last_i) = es ! i # slots es (Suc i) (Suc last_i)"
      by (simp add: slots_Cons)
    show ?thesis
    proof (cases "key (es ! i) \<noteq> None \<and> cs = key_checksum (es ! i) \<and>
               strcasecmp (the (key (es ! i))) k = 0")
      case m: True
      from True m have r: "vdo_bucket compf es cs k last_i (rec, rv) i =
          vdo_bucket compf es cs k last_i (compf rec (the (key (es ! i))) (val (es ! i))) (i + 1)"
        using unf by simp
      from m have f: "filter ?P (slots es i (Suc last_i)) =
          es ! i # filter ?P (slots es (i + 1) (Suc last_i))"
        by (simp add: sl key_eq_def)
      from "1.IH"(1) [OF True m] "1.prems" True
      have "vdo_bucket compf es cs k last_i (compf rec (the (key (es ! i))) (val (es ! i))) (i + 1) =
            run_calls compf (compf rec (the (key (es ! i))) (val (es ! i)))
              (filter ?P (slots es (i + 1) (Suc last_i)))"
        by simp
      with True show ?thesis
        unfolding r f by simp
    next
      case m: False
      from True m have r: "vdo_bucket compf es cs k last_i (rec, rv) i =
          vdo_bucket compf es cs k last_i (rec, rv) (i + 1)"
        using unf by auto
      from m have f: "filter ?P (slots es i (Suc last_i)) = filter ?P (slots es (i + 1) (Suc last_i))"
        by (auto simp add: sl key_eq_def)
      from "1.IH"(2) [OF True m] "1.prems" True
      show ?thesis
        unfolding r f by simp
    qed
  qed
qed

lemma vdo_all_calls:
  "n \<le> length es \<Longrightarrow>
   vdo_all compf es n st i = run_calls compf st (filter (\<lambda>e. key e \<noteq> None) (slots es i n))"
proof (induction compf es n st i rule: vdo_all.induct)
  case (1 compf es n rec rv i)
  note unf = vdo_all.simps [of compf es n rec rv i]
  show ?case
  proof (cases "rv \<noteq> 0 \<and> i < n")
    case False
    then have r: "vdo_all compf es n (rec, rv) i = (rec, rv)"
      by (auto simp add: unf)
    show ?thesis
    proof (cases "rv = 0")
      case True
      then show ?thesis using r by simp
    next
      case nz: False
      with False have "n \<le> i" by simp
      then show ?thesis using r by (simp add: slots_empty)
    qed
  next
    case True
    with "1.prems" have sl: "slots es i n = es ! i # slots es (Suc i) n"
      by (simp add: slots_Cons)
    show ?thesis
    proof (cases "key (es ! i) \<noteq> None")
      case m: True
      from "1.IH"(1) [OF True m] "1.prems"
      have "vdo_all compf es n (compf rec (the (key (es ! i))) (val (es ! i))) (i + 1) =
            run_calls compf (compf rec (the (key (es ! i))) (val (es ! i)))
              (filter (\<lambda>e. key e \<noteq> None) (slots es (i + 1) n))"
        by simp
      with True m show ?thesis
        by (simp add: unf sl)
    next
      case m: False
      from "1.IH"(2) [OF True m] "1.prems"
      have "vdo_all compf es n (rec, rv) (i + 1) =
            run_calls compf (rec, rv) (filter (\<lambda>e. key e \<noteq> None) (slots es (i + 1) n))"
        by simp
      with True m show ?thesis
        by (simp add: unf sl)
    qed
  qed
qed

lemma filter_none: "\<forall>x\<in>set xs. \<not> P x \<Longrightarrow> filter P xs = []"
  by (simp add: filter_empty_conv)

lemma take_split_range:
  assumes "F \<le> Suc L" "L < N" "N \<le> length es"
  shows "take N es = take F es @ slots es F (Suc L) @ slots es (Suc L) N"
proof -
  have "take N es = take (Suc L) es @ slots es (Suc L) N"
    using assms take_add [of "Suc L" "N - Suc L" es] by (simp add: slots_def)
  moreover have "take (Suc L) es = take F es @ slots es F (Suc L)"
    using assms take_add [of F "Suc L - F" es] by (simp add: slots_def)
  ultimately show ?thesis by simp
qed

lemma entry_wf_key: "entry_wf sc e \<Longrightarrow> key e \<noteq> None"
  by (auto simp add: entry_wf_def split: option.splits)

lemma round_key:
  assumes inv: "table_inv sc t"
  shows "vdo_round sc compf t (Some k) rec =
         run_calls compf (rec, 1) (filter (has_key k) (entries t))"
proof -
  from inv have len: "a_nelts t \<le> length (a_elts t)" by (simp add: table_inv_iff)
  then have lenE: "length (entries t) = a_nelts t" by (simp add: length_entries)
  show ?thesis
  proof (cases "TABLE_INDEX_IS_INITIALIZED t (TABLE_HASH k)")
    case False
    have "\<forall>e\<in>set (entries t). \<not> has_key k e"
    proof
      fix e assume "e \<in> set (entries t)"
      then obtain j where "j < a_nelts t" "e = a_elts t ! j"
        using lenE by (auto simp add: in_set_conv_nth nth_entries)
      with uninitialized_no_key [OF inv False] show "\<not> has_key k e" by simp
    qed
    then have "filter (has_key k) (entries t) = []" by (rule filter_none)
    with False show ?thesis by (simp add: vdo_round_def)
  next
    case True
    let ?F = "index_first t (TABLE_HASH k)"
    let ?L = "index_last t (TABLE_HASH k)"
    let ?cs = "COMPUTE_KEY_CHECKSUM sc k"
    let ?es = "a_elts t"
    from inv True have FL: "?F \<le> ?L" and LN: "?L < a_nelts t" by (simp_all add: table_inv_iff)
    from FL have FL': "?F \<le> Suc ?L" by simp
    from LN len have Llen: "?L < length ?es" by simp
    have split: "entries t = take ?F ?es @ slots ?es ?F (Suc ?L) @ slots ?es (Suc ?L) (a_nelts t)"
      using take_split_range [OF FL' LN len] by (simp add: entries_def)
    have a: "filter (has_key k) (take ?F ?es) = []"
    proof (rule filter_none, rule ballI)
      fix e assume "e \<in> set (take ?F ?es)"
      with in_take [of e ?F ?es] FL LN len obtain m where m: "m < ?F" "e = ?es ! m" by auto
      with FL LN have "m < a_nelts t" by simp
      from inv_range [OF inv this, of k] m show "\<not> has_key k e" by auto
    qed
    have c: "filter (has_key k) (slots ?es (Suc ?L) (a_nelts t)) = []"
    proof (rule filter_none, rule ballI)
      fix e assume "e \<in> set (slots ?es (Suc ?L) (a_nelts t))"
      with in_slots [of e ?es "Suc ?L" "a_nelts t"] len
      obtain m where m: "Suc ?L \<le> m" "m < a_nelts t" "e = ?es ! m" by auto
      from inv_range [OF inv m(2), of k] m show "\<not> has_key k e" by auto
    qed
    have b: "filter (\<lambda>e. key e \<noteq> None \<and> key_eq ?cs k e) (slots ?es ?F (Suc ?L)) =
             filter (has_key k) (slots ?es ?F (Suc ?L))"
    proof (rule filter_cong [OF refl])
      fix e assume "e \<in> set (slots ?es ?F (Suc ?L))"
      with in_slots [of e ?es ?F "Suc ?L"] Llen
      obtain m where m: "m < Suc ?L" "e = ?es ! m" by auto
      with LN have "m < a_nelts t" by simp
      from inv_wf [OF inv this] m have wf: "entry_wf sc e" by simp
      then have "key e \<noteq> None" by (rule entry_wf_key)
      with key_eq_has_key [OF wf, of k]
      show "(key e \<noteq> None \<and> key_eq ?cs k e) = has_key k e" by simp
    qed
    have "filter (has_key k) (entries t) =
          filter (\<lambda>e. key e \<noteq> None \<and> key_eq ?cs k e) (slots ?es ?F (Suc ?L))"
      unfolding split filter_append a b c by simp
    with True vdo_bucket_calls [OF Llen FL', of compf ?cs k "(rec, 1)"] show ?thesis
      by (simp add: vdo_round_def Let_def)
  qed
qed

lemma round_all:
  assumes inv: "table_inv sc t"
  shows "vdo_round sc compf t None rec = run_calls compf (rec, 1) (entries t)"
proof -
  from inv have len: "a_nelts t \<le> length (a_elts t)" by (simp add: table_inv_iff)
  have "\<forall>e\<in>set (entries t). key e \<noteq> None"
    using entries_wf [OF inv] entry_wf_key by blast
  then have "filter (\<lambda>e. key e \<noteq> None) (entries t) = entries t" by (rule filter_all)
  with vdo_all_calls [OF len, of compf "(rec, 1)" 0] show ?thesis
    by (simp add: vdo_round_def slots_def entries_def)
qed

lemma run_traced:
  "rv \<noteq> 0 \<Longrightarrow>
   run_calls (traced compf) ((rec, log), rv) es =
     ((fst (visit compf rec es), log @ snd (visit compf rec es)),
      (if snd (visit compf rec es) = [] then rv
       else if any_zero (snd (visit compf rec es)) then 0
       else snd (snd (last (snd (visit compf rec es))))))"
proof (induction es arbitrary: rec log rv)
  case Nil
  then show ?case by simp
next
  case (Cons e es)
  obtain rec1 rv1 where c: "compf rec (the (key e)) (val e) = (rec1, rv1)"
    by (cases "compf rec (the (key e)) (val e)")
  show ?case
  proof (cases "rv1 = 0")
    case True
    with Cons.prems c show ?thesis
      by (simp add: traced_def any_zero_def)
  next
    case False
    obtain rec2 calls where v: "visit compf rec1 es = (rec2, calls)"
      by (cases "visit compf rec1 es")
    from Cons.IH [OF False, of rec1 "log @ [(the (key e), val e, rv1)]"] v Cons.prems c False
    show ?thesis
      by (simp add: traced_def any_zero_def)
  qed
qed

lemma visit_nonzero_result:
  "snd (visit compf rec es) \<noteq> [] \<Longrightarrow> \<not> any_zero (snd (visit compf rec es)) \<Longrightarrow>
   snd (snd (last (snd (visit compf rec es)))) \<noteq> 0"
  by (auto simp add: any_zero_def)

lemma any_zero_append [simp]: "any_zero (xs @ ys) \<longleftrightarrow> any_zero xs \<or> any_zero ys"
  by (auto simp add: any_zero_def)

lemma any_zero_Nil [simp]: "\<not> any_zero []"
  by (simp add: any_zero_def)

lemma round_traced:
  assumes "table_inv sc t"
  shows "vdo_round sc (traced compf) t argp (rec, log) =
     (let es = (case argp of Some k \<Rightarrow> filter (has_key k) (entries t) | None \<Rightarrow> entries t);
          r = visit compf rec es
      in ((fst r, log @ snd r), if any_zero (snd r) then 0
            else if snd r = [] then 1 else snd (snd (last (snd r)))))"
proof (cases argp)
  case None
  with round_all [OF assms, of "traced compf" "(rec, log)"]
       run_traced [of 1 compf rec log "entries t"]
  show ?thesis by (simp add: Let_def)
next
  case (Some k)
  with round_key [OF assms, of "traced compf" k "(rec, log)"]
       run_traced [of 1 compf rec log "filter (has_key k) (entries t)"]
  show ?thesis by (simp add: Let_def)
qed

lemma round_traced_zero:
  assumes "table_inv sc t"
  shows "snd (vdo_round sc (traced compf) t argp (rec, log)) = 0 \<longleftrightarrow>
     any_zero (snd (visit compf rec
        (case argp of Some k \<Rightarrow> filter (has_key k) (entries t) | None \<Rightarrow> entries t)))"
  using visit_nonzero_result [of compf rec
      "case argp of Some k \<Rightarrow> filter (has_key k) (entries t) | None \<Rightarrow> entries t"]
  by (auto simp add: round_traced [OF assms] Let_def)

lemma vdo_keys_traced:
  assumes inv: "table_inv sc t"
  shows "vdo_keys sc (traced compf) t ks ((rec, log), vd) =
     ((fst (iterate_keys compf rec (entries t) ks),
       log @ snd (iterate_keys compf rec (entries t) ks)),
      if any_zero (snd (iterate_keys compf rec (entries t) ks)) then 0 else vd)"
proof (induction ks arbitrary: rec log vd)
  case Nil
  show ?case by simp
next
  case (Cons k ks)
  obtain rec1 calls1 where v: "visit compf rec (filter (has_key k) (entries t)) = (rec1, calls1)"
    by (cases "visit compf rec (filter (has_key k) (entries t))")
  obtain st rv where r: "vdo_round sc (traced compf) t (Some k) (rec, log) = (st, rv)"
    by (cases "vdo_round sc (traced compf) t (Some k) (rec, log)")
  from r round_traced [OF inv, of compf "Some k" rec log] v
  have st: "st = (rec1, log @ calls1)" by (simp add: Let_def)
  from r round_traced_zero [OF inv, of compf "Some k" rec log] v
  have rv: "rv = 0 \<longleftrightarrow> any_zero calls1" by simp
  obtain rec2 calls2 where i: "iterate_keys compf rec1 (entries t) ks = (rec2, calls2)"
    by (cases "iterate_keys compf rec1 (entries t) ks")
  from Cons.IH [of rec1 "log @ calls1" "if rv = 0 then 0 else vd"] i
  show ?case
    by (simp add: r st v rv)
qed

text \<open>
  Claim C6. In a well-formed table, \<open>xm_table_do\<close> with keys visits, for each key in
  turn, the entries that have the key under \<open>strcasecmp\<close>, in table order, up to the
  first invocation that returns 0, which ends the visit for that key only; without keys
  it visits all entries up to the first invocation that returns 0. The result is 0 if
  some invocation returned 0, and 1 otherwise. The invocations are read off the log
  that \<open>traced\<close> keeps beside the callback's own state.
\<close>

theorem iterate_invocations:
  assumes "table_inv sc t"
  shows "xm_table_do sc (traced compf) (rec, []) t keys =
           (iterate_spec compf rec (entries t) keys,
            if any_zero (snd (iterate_spec compf rec (entries t) keys)) then 0 else 1)"
proof (cases keys)
  case Nil
  obtain st rv where r: "vdo_round sc (traced compf) t None (rec, []) = (st, rv)"
    by (cases "vdo_round sc (traced compf) t None (rec, [])")
  from r round_traced [OF assms, of compf None rec "[]"]
  have st: "st = visit compf rec (entries t)" by (simp add: Let_def)
  from r round_traced_zero [OF assms, of compf None rec "[]"]
  have rv: "rv = 0 \<longleftrightarrow> any_zero (snd (visit compf rec (entries t)))" by simp
  from Nil show ?thesis
    by (simp add: xm_table_do_def xm_table_vdo_def iterate_spec_def r st rv)
next
  case (Cons k ks)
  with vdo_keys_traced [OF assms, of compf "k # ks" rec "[]" 1] show ?thesis
    by (simp add: xm_table_do_def xm_table_vdo_def iterate_spec_def del: vdo_keys.simps iterate_keys.simps)
qed

lemma hosts_inv: "table_inv True hosts"
  unfolding hosts_def by (intro add_inv make_inv)

lemma entries_add_inv:
  "table_inv sc t \<Longrightarrow> entries (xm_table_add sc t k v) =
         entries t @ [\<lparr>key = Some k, val = v, key_checksum = COMPUTE_KEY_CHECKSUM sc k\<rparr>]"
  by (simp add: entries_add table_inv_iff)

lemma hosts_entries:
  "entries hosts =
     [\<lparr>key = Some ''Host'', val = ''a'', key_checksum = COMPUTE_KEY_CHECKSUM True ''Host''\<rparr>,
      \<lparr>key = Some ''Accept'', val = ''b'', key_checksum = COMPUTE_KEY_CHECKSUM True ''Accept''\<rparr>,
      \<lparr>key = Some ''HOST'', val = ''c'', key_checksum = COMPUTE_KEY_CHECKSUM True ''HOST''\<rparr>]"
  unfolding hosts_def
  by (simp add: entries_add_inv add_inv make_inv entries_make)

theorem iterate_invocations_witness:
  "table_inv True hosts \<and>
   xm_table_do True (traced stop_at_a) (0, []) hosts [''host'', ''accept''] =
     ((2, [(''Host'', ''a'', 0), (''Accept'', ''b'', 1)]), 0)"
  using iterate_invocations [OF hosts_inv, of stop_at_a 0 "[''host'', ''accept'']"] hosts_inv
  by (simp add: hosts_entries iterate_spec_def has_key_def lc_def tolower_def stop_at_a_def
      any_zero_def)

section \<open>\<open>xm_array_pstrcat\<close>\<close>

lemma join_slots_Cons:
  "ys \<noteq> [] \<Longrightarrow> join_slots sep (x # ys) =
     slot_str x @ (if sep \<noteq> CHR 0x00 then [sep] else []) @ join_slots sep ys"
  by (cases ys) simp_all

lemma pstrcat_copy_slots:
  "0 \<le> i \<Longrightarrow> i < n \<Longrightarrow> n \<le> int (length strs) \<Longrightarrow>
   pstrcat_copy strs sep n i cp = cp @ join_slots sep (slots strs (nat i) (nat n))"
proof (induction strs sep n i cp rule: pstrcat_copy.induct)
  case (1 strs sep n i cp)
  note unf = pstrcat_copy.simps [of strs sep n i cp]
  let ?cp = "case strs ! nat i of Some s \<Rightarrow> cp @ s | None \<Rightarrow> cp"
  have cp: "?cp = cp @ slot_str (strs ! nat i)"
    by (simp add: slot_str_def split: option.splits)
  from "1.prems" have sl: "slots strs (nat i) (nat n) = strs ! nat i # slots strs (Suc (nat i)) (nat n)"
    by (intro slots_Cons) simp_all
  from "1.prems" have suc: "nat (i + 1) = Suc (nat i)" by simp
  show ?case
  proof (cases "n \<le> i + 1")
    case True
    then have "pstrcat_copy strs sep n i cp = ?cp"
      by (simp add: unf Let_def)
    moreover from True "1.prems" have "slots strs (Suc (nat i)) (nat n) = []"
      by (intro slots_empty) simp
    ultimately show ?thesis by (simp add: cp sl)
  next
    case False
    then have r: "pstrcat_copy strs sep n i cp =
        pstrcat_copy strs sep n (i + 1) (if sep \<noteq> CHR 0x00 then ?cp @ [sep] else ?cp)"
      by (simp add: unf Let_def)
    from False "1.prems" have "Suc (nat i) < nat n" "nat n \<le> length strs" by linarith+
    then have ne: "slots strs (Suc (nat i)) (nat n) \<noteq> []"
      by (simp add: slots_def)
    from "1.IH" [OF refl refl False] False "1.prems"
    have "pstrcat_copy strs sep n (i + 1) (if sep \<noteq> CHR 0x00 then ?cp @ [sep] else ?cp) =
          (if sep \<noteq> CHR 0x00 then ?cp @ [sep] else ?cp) @
            join_slots sep (slots strs (nat (i + 1)) (nat n))"
      by simp
    then show ?thesis
      unfolding r sl by (simp add: cp suc join_slots_Cons [OF ne])
  qed
qed

lemma pstrcat_len_slots:
  "0 \<le> i \<Longrightarrow> i < n \<Longrightarrow> n \<le> int (length strs) \<Longrightarrow>
   pstrcat_len strs sep n i len = len + length (join_slots sep (slots strs (nat i) (nat n)))"
proof (induction strs sep n i len rule: pstrcat_len.induct)
  case (1 strs sep n i len)
  note unf = pstrcat_len.simps [of strs sep n i len]
  let ?len = "case strs ! nat i of Some s \<Rightarrow> len + length s | None \<Rightarrow> len"
  have len: "?len = len + length (slot_str (strs ! nat i))"
    by (simp add: slot_str_def split: option.splits)
  from "1.prems" have sl: "slots strs (nat i) (nat n) = strs ! nat i # slots strs (Suc (nat i)) (nat n)"
    by (intro slots_Cons) simp_all
  from "1.prems" have suc: "nat (i + 1) = Suc (nat i)" by simp
  show ?case
  proof (cases "n \<le> i + 1")
    case True
    then have "pstrcat_len strs sep n i len = ?len"
      by (simp add: unf Let_def)
    moreover from True "1.prems" have "slots strs (Suc (nat i)) (nat n) = []"
      by (intro slots_empty) simp
    ultimately show ?thesis by (simp add: len sl)
  next
    case False
    then have r: "pstrcat_len strs sep n i len =
        pstrcat_len strs sep n (i + 1) (if sep \<noteq> CHR 0x00 then ?len + 1 else ?len)"
      by (simp add: unf Let_def)
    from False "1.prems" have "Suc (nat i) < nat n" "nat n \<le> length strs" by linarith+
    then have ne: "slots strs (Suc (nat i)) (nat n) \<noteq> []"
      by (simp add: slots_def)
    from "1.IH" [OF refl refl False] False "1.prems"
    have "pstrcat_len strs sep n (i + 1) (if sep \<noteq> CHR 0x00 then ?len + 1 else ?len) =
          (if sep \<noteq> CHR 0x00 then ?len + 1 else ?len) +
            length (join_slots sep (slots strs (nat (i + 1)) (nat n)))"
      by simp
    then show ?thesis
      unfolding r sl by (simp add: len suc join_slots_Cons [OF ne])
  qed
qed

lemma pstrcat_join:
  assumes "p_elts arr = Some strs" "0 < p_nelts arr" "p_nelts arr \<le> int (length strs)"
  shows "xm_array_pstrcat arr sep = Some (join_slots sep (take (nat (p_nelts arr)) strs))"
  using assms pstrcat_copy_slots [of 0 "p_nelts arr" strs sep "[]"]
  by (simp add: xm_array_pstrcat_def slots_def)

text \<open>The buffer of \<open>len + 1\<close> bytes that pass one sizes holds what pass two writes and
  the terminating NUL.\<close>

lemma pstrcat_fits:
  assumes "0 < n" "n \<le> int (length strs)"
  shows "length (pstrcat_copy strs sep n 0 []) = pstrcat_len strs sep n 0 0"
  using assms by (simp add: pstrcat_copy_slots pstrcat_len_slots)

lemma join_slots_no_sep_all_null:
  "\<forall>x\<in>set xs. x = None \<Longrightarrow> join_slots (CHR 0x00) xs = []"
  by (induction "CHR 0x00 :: char" xs rule: join_slots.induct) (simp_all add: slot_str_def)

text \<open>
  Claim C2, as the code has it. The claim says that only the non-null elements are
  joined, with the separator between consecutive ones, so that \<open>["a", null, "b"]\<close> with
  \<open>','\<close> gives \<open>"a,b"\<close>. The code writes the separator behind every slot but the last,
  null or not.
\<close>

theorem pstrcat_null_slot_counterexample:
  "xm_array_pstrcat \<lparr>p_elts = Some [Some ''a'', None, Some ''b''], p_nelts = 3, p_nalloc = 3\<rparr>
     (CHR '','') = Some ''a,,b'' \<and>
   xm_array_pstrcat \<lparr>p_elts = Some [Some ''a'', None, Some ''b''], p_nelts = 3, p_nalloc = 3\<rparr>
     (CHR '','') \<noteq> Some ''a,b''"
  by (simp add: pstrcat_join slot_str_def)

text \<open>
  Claim C2, amended. \<open>xm_array_pstrcat\<close> never returns NULL. An array without elements
  gives the empty string. For an array that has a non-null element, or with the
  separator NUL, the result is the strings of the slots in order, a null slot counting
  as the empty string, with the separator (unless it is NUL) between every slot and the
  next (\<open>join_slots\<close>); with the separator NUL an array of null elements gives the empty
  string.
\<close>

theorem pstrcat_slots:
  "xm_array_pstrcat arr sep \<noteq> None \<and>
   (p_nelts arr \<le> 0 \<or> p_elts arr = None \<longrightarrow> xm_array_pstrcat arr sep = Some []) \<and>
   (p_elts arr = Some strs \<and> 0 < p_nelts arr \<and> p_nelts arr \<le> int (length strs) \<and>
    (sep = CHR 0x00 \<or> (\<exists>x\<in>set (take (nat (p_nelts arr)) strs). x \<noteq> None)) \<longrightarrow>
      xm_array_pstrcat arr sep = Some (join_slots sep (take (nat (p_nelts arr)) strs))) \<and>
   (p_elts arr = Some strs \<and> 0 < p_nelts arr \<and> p_nelts arr \<le> int (length strs) \<and>
    sep = CHR 0x00 \<and> (\<forall>x\<in>set (take (nat (p_nelts arr)) strs). x = None) \<longrightarrow>
      xm_array_pstrcat arr sep = Some [])"
proof -
  have a: "xm_array_pstrcat arr sep \<noteq> None"
    by (simp add: xm_array_pstrcat_def)
  have b: "p_nelts arr \<le> 0 \<or> p_elts arr = None \<longrightarrow> xm_array_pstrcat arr sep = Some []"
    by (auto simp add: xm_array_pstrcat_def)
  have c: "xm_array_pstrcat arr sep = Some (join_slots sep (take (nat (p_nelts arr)) strs))"
    if "p_elts arr = Some strs" "0 < p_nelts arr" "p_nelts arr \<le> int (length strs)"
    using that by (rule pstrcat_join)
  have d: "join_slots sep (take (nat (p_nelts arr)) strs) = []"
    if "sep = CHR 0x00" "\<forall>x\<in>set (take (nat (p_nelts arr)) strs). x = None"
    using that join_slots_no_sep_all_null by simp
  from a b c d show ?thesis by auto
qed

theorem pstrcat_slots_witness:
  "xm_array_pstrcat
     \<lparr>p_elts = Some [Some ''a'', None, Some ''b'', None], p_nelts = 3, p_nalloc = 4\<rparr> (CHR '','')
     = Some ''a,,b'' \<and>
   xm_array_pstrcat \<lparr>p_elts = Some [Some ''a'', Some ''b''], p_nelts = 2, p_nalloc = 2\<rparr> (CHR '','')
     = Some ''a,b'' \<and>
   xm_array_pstrcat \<lparr>p_elts = Some [None, None], p_nelts = 2, p_nalloc = 2\<rparr> (CHR 0x00) = Some [] \<and>
   xm_array_pstrcat \<lparr>p_elts = Some [None, None], p_nelts = 0, p_nalloc = 2\<rparr> (CHR '','') = Some []"
  using
    pstrcat_slots [of "\<lparr>p_elts = Some [Some ''a'', None, Some ''b'', None], p_nelts = 3, p_nalloc = 4\<rparr>"
      "CHR '',''" "[Some ''a'', None, Some ''b'', None]"]
    pstrcat_slots [of "\<lparr>p_elts = Some [Some ''a'', Some ''b''], p_nelts = 2, p_nalloc = 2\<rparr>"
      "CHR '',''" "[Some ''a'', Some ''b'']"]
    pstrcat_slots [of "\<lparr>p_elts = Some [None, None], p_nelts = 2, p_nalloc = 2\<rparr>"
      "CHR 0x00" "[None, None]"]
    pstrcat_slots [of "\<lparr>p_elts = Some [None, None], p_nelts = 0, p_nalloc = 2\<rparr>"
      "CHR '',''" "[None, None]"]
  by (simp add: slot_str_def)

text \<open>\<open>xm_table_getm\<close> on a table with one or two entries for the key.\<close>

lemma getm_calls:
  assumes "table_inv sc t"
  shows "xm_table_getm sc t k =
     (let (state, rv) = run_calls table_getm_do (\<lparr>first = None, merged = None\<rparr>, 1)
                          (filter (has_key k) (entries t))
      in if first state = None then None
         else if merged state = None then first state
         else xm_array_pstrcat (the (merged state)) (CHR '',''))"
  by (simp add: xm_table_getm_def xm_table_do_def xm_table_vdo_def round_key [OF assms] Let_def
      split: prod.splits)

lemma getm_two:
  assumes "table_inv sc t" "filter (has_key k) (entries t) = [e1, e2]"
  shows "xm_table_getm sc t k = Some (val e1 @ '','' @ val e2)"
proof -
  let ?arr = "\<lparr>p_elts = Some ([Some (val e1), Some (val e2)] @ replicate 8 None),
               p_nelts = 2, p_nalloc = 10\<rparr>"
  have r: "run_calls table_getm_do (\<lparr>first = None, merged = None\<rparr>, 1) [e1, e2] =
      (\<lparr>first = Some (val e1), merged = Some ?arr\<rparr>, 1)"
    by (simp add: table_getm_do_def xm_array_push_strs_def xm_array_make_strs_def Let_def
        numeral_eq_Suc)
  have "xm_array_pstrcat ?arr (CHR '','') = Some (val e1 @ '','' @ val e2)"
    by (simp add: pstrcat_join slot_str_def)
  with r show ?thesis
    by (simp add: getm_calls [OF assms(1)] assms(2))
qed

lemma find_append_None: "find P xs = None \<Longrightarrow> find P (xs @ ys) = find P ys"
  by (induction xs) (simp_all split: if_splits)

lemma getm_three:
  assumes "table_inv sc t" "filter (has_key k) (entries t) = [e1, e2, e3]"
  shows "xm_table_getm sc t k = Some (val e1 @ '','' @ val e2 @ '','' @ val e3)"
proof -
  let ?arr = "\<lparr>p_elts = Some ([Some (val e1), Some (val e2), Some (val e3)] @ replicate 7 None),
               p_nelts = 3, p_nalloc = 10\<rparr>"
  have r: "run_calls table_getm_do (\<lparr>first = None, merged = None\<rparr>, 1) [e1, e2, e3] =
      (\<lparr>first = Some (val e1), merged = Some ?arr\<rparr>, 1)"
    by (simp add: table_getm_do_def xm_array_push_strs_def xm_array_make_strs_def Let_def
        numeral_eq_Suc)
  have "xm_array_pstrcat ?arr (CHR '','') = Some (val e1 @ '','' @ val e2 @ '','' @ val e3)"
    by (simp add: pstrcat_join slot_str_def numeral_eq_Suc)
  with r show ?thesis
    by (simp add: getm_calls [OF assms(1)] assms(2))
qed

text \<open>
  Claim C8, as stated for every table. A table that already has an entry for the key
  keeps it in front: after \<open>add(K, V1)\<close> and \<open>add(K, V2)\<close> on a table that holds
  \<open>(K, V0)\<close>, \<open>get(K)\<close> returns \<open>V0\<close>, and \<open>get_merged(K)\<close> returns \<open>"V0,V1,V2"\<close>.
\<close>

theorem add_add_get_counterexample:
  "xm_table_get True (xm_table_add True (xm_table_add True one_k ''K'' ''V1'') ''K'' ''V2'')
     (Some ''K'') = Some ''V0'' \<and>
   xm_table_getm True (xm_table_add True (xm_table_add True one_k ''K'' ''V1'') ''K'' ''V2'') ''K''
     = Some ''V0,V1,V2''"
proof -
  let ?t = "xm_table_add True (xm_table_add True one_k ''K'' ''V1'') ''K'' ''V2''"
  have inv: "table_inv True ?t"
    unfolding one_k_def by (intro add_inv make_inv)
  have e: "entries ?t =
     [\<lparr>key = Some ''K'', val = ''V0'', key_checksum = COMPUTE_KEY_CHECKSUM True ''K''\<rparr>,
      \<lparr>key = Some ''K'', val = ''V1'', key_checksum = COMPUTE_KEY_CHECKSUM True ''K''\<rparr>,
      \<lparr>key = Some ''K'', val = ''V2'', key_checksum = COMPUTE_KEY_CHECKSUM True ''K''\<rparr>]"
    unfolding one_k_def by (simp add: entries_add_inv add_inv make_inv entries_make)
  have f: "filter (has_key ''K'') (entries ?t) = entries ?t"
    unfolding e by (simp add: has_key_def)
  from getm_three [OF inv, of "''K''"] f e get_spec [OF inv, of "''K''"] show ?thesis
    by (simp add: has_key_def)
qed

text \<open>
  Claim C8, amended. In a well-formed table that has no entry for the key \<open>K\<close>, after
  \<open>add(K, V1)\<close> and \<open>add(K, V2)\<close>, \<open>get(K)\<close> returns \<open>V1\<close> and
  \<open>get_merged(K)\<close> returns \<open>V1\<close>, a comma and \<open>V2\<close>.
\<close>

theorem add_add_get:
  assumes "table_inv sc t" and "filter (has_key k) (entries t) = []"
  shows "xm_table_get sc (xm_table_add sc (xm_table_add sc t k v1) k v2) (Some k) = Some v1 \<and>
         xm_table_getm sc (xm_table_add sc (xm_table_add sc t k v1) k v2) k
           = Some (v1 @ '','' @ v2)"
proof -
  let ?t = "xm_table_add sc (xm_table_add sc t k v1) k v2"
  let ?e1 = "\<lparr>key = Some k, val = v1, key_checksum = COMPUTE_KEY_CHECKSUM sc k\<rparr>"
  let ?e2 = "\<lparr>key = Some k, val = v2, key_checksum = COMPUTE_KEY_CHECKSUM sc k\<rparr>"
  from assms(1) have inv: "table_inv sc ?t"
    by (intro add_inv)
  have e: "entries ?t = entries t @ [?e1, ?e2]"
    by (simp add: entries_add_inv add_inv assms(1))
  from assms(2) have f: "filter (has_key k) (entries ?t) = [?e1, ?e2]"
    by (simp add: e has_key_new)
  from assms(2) have "find (has_key k) (entries t) = None"
    by (simp add: find_None_iff filter_empty_conv)
  then have g: "find (has_key k) (entries ?t) = Some ?e1"
    by (simp add: e find_append_None has_key_new)
  from getm_two [OF inv f] get_spec [OF inv, of k] g show ?thesis
    by simp
qed

theorem add_add_get_witness:
  "table_inv True (xm_table_add True (xm_table_make raw0 2) ''Accept'' ''b'') \<and>
   filter (has_key ''K'') (entries (xm_table_add True (xm_table_make raw0 2) ''Accept'' ''b'')) = [] \<and>
   xm_table_get True
     (xm_table_add True (xm_table_add True
        (xm_table_add True (xm_table_make raw0 2) ''Accept'' ''b'') ''K'' ''V1'') ''K'' ''V2'')
     (Some ''K'') = Some ''V1'' \<and>
   xm_table_getm True
     (xm_table_add True (xm_table_add True
        (xm_table_add True (xm_table_make raw0 2) ''Accept'' ''b'') ''K'' ''V1'') ''K'' ''V2'')
     ''K'' = Some ''V1,V2''"
proof -
  let ?t = "xm_table_add True (xm_table_make raw0 2) ''Accept'' ''b''"
  have inv: "table_inv True ?t"
    by (intro add_inv make_inv)
  have no: "filter (has_key ''K'') (entries ?t) = []"
    by (simp add: entries_add_inv make_inv entries_make has_key_def lc_def tolower_def)
  from add_add_get [OF inv no, of "''V1''" "''V2''"] inv no show ?thesis
    by simp
qed

section \<open>Pushing onto an array\<close>

lemma write_at_front:
  "length ys \<le> length xs \<Longrightarrow> write_at xs 0 ys = ys @ drop (length ys) xs"
  by (simp add: write_at_def)

lemma write_at_tail:
  "write_at (ys @ zs) (length ys) ws = ys @ ws @ drop (length ws) zs"
  by (simp add: write_at_def)

lemma push_not_full:
  "nelts arr \<noteq> nalloc arr \<Longrightarrow>
   xm_array_push h arr = (h, arr\<lparr>nelts := nelts arr + 1\<rparr>, (elts arr, nat (elt_size arr * nelts arr)))"
  "nelts arr \<noteq> nalloc arr \<Longrightarrow>
   xm_array_push_noclear h arr =
     (h, arr\<lparr>nelts := nelts arr + 1\<rparr>, (elts arr, nat (elt_size arr * nelts arr)))"
  by (simp_all add: xm_array_push_def xm_array_push_noclear_def)

lemma push_full:
  assumes ok: "array_ok h arr" and full: "nelts arr = nalloc arr"
  shows "xm_array_push h arr =
     (h @ [take (nat (nalloc arr * elt_size arr)) (h ! elts arr) @
           replicate (nat (elt_size arr * (grown arr - nalloc arr))) (Some 0)],
      arr\<lparr>elts := length h, nalloc := grown arr, nelts := nelts arr + 1\<rparr>,
      (length h, nat (elt_size arr * nelts arr)))"
proof -
  let ?old = "take (nat (nalloc arr * elt_size arr)) (h ! elts arr)"
  let ?n = "nat (elt_size arr * grown arr)"
  let ?z = "nat (elt_size arr * (grown arr - nalloc arr))"
  from ok have e: "elts arr < length h" and es: "0 \<le> elt_size arr" and na: "0 \<le> nalloc arr"
    and len: "nalloc arr * elt_size arr \<le> int (length (h ! elts arr))"
    by (simp_all add: array_ok_def)
  from na have g: "nalloc arr \<le> grown arr" by (simp add: grown_def)
  have lo: "length ?old = nat (nalloc arr * elt_size arr)" using len by simp
  have sum: "?n = nat (nalloc arr * elt_size arr) + ?z"
  proof -
    have "elt_size arr * grown arr = nalloc arr * elt_size arr + elt_size arr * (grown arr - nalloc arr)"
      by (simp add: algebra_simps)
    moreover have "0 \<le> nalloc arr * elt_size arr" "0 \<le> elt_size arr * (grown arr - nalloc arr)"
      using es na g by simp_all
    ultimately show ?thesis by (simp add: nat_add_distrib)
  qed
  have b1: "write_at (replicate ?n None) 0 ?old = ?old @ replicate ?z None"
    using lo sum by (simp add: write_at_front)
  have b2: "write_at (?old @ replicate ?z None) (nat (nalloc arr * elt_size arr)) (replicate ?z (Some 0)) =
      ?old @ replicate ?z (Some 0)"
    using write_at_tail [of ?old "replicate ?z None" "replicate ?z (Some 0)"] lo by simp
  show ?thesis
    using full e
    by (simp add: xm_array_push_def xm_palloc_def memcpy_def memset_def Let_def nth_append b1 b2
        grown_def [symmetric])
qed

lemma push_noclear_full:
  assumes ok: "array_ok h arr" and full: "nelts arr = nalloc arr"
  shows "xm_array_push_noclear h arr =
     (h @ [take (nat (nalloc arr * elt_size arr)) (h ! elts arr) @
           replicate (nat (elt_size arr * (grown arr - nalloc arr))) None],
      arr\<lparr>elts := length h, nalloc := grown arr, nelts := nelts arr + 1\<rparr>,
      (length h, nat (elt_size arr * nelts arr)))"
proof -
  let ?old = "take (nat (nalloc arr * elt_size arr)) (h ! elts arr)"
  let ?n = "nat (elt_size arr * grown arr)"
  let ?z = "nat (elt_size arr * (grown arr - nalloc arr))"
  from ok have e: "elts arr < length h" and es: "0 \<le> elt_size arr" and na: "0 \<le> nalloc arr"
    and len: "nalloc arr * elt_size arr \<le> int (length (h ! elts arr))"
    by (simp_all add: array_ok_def)
  from na have g: "nalloc arr \<le> grown arr" by (simp add: grown_def)
  have lo: "length ?old = nat (nalloc arr * elt_size arr)" using len by simp
  have sum: "?n = nat (nalloc arr * elt_size arr) + ?z"
  proof -
    have "elt_size arr * grown arr = nalloc arr * elt_size arr + elt_size arr * (grown arr - nalloc arr)"
      by (simp add: algebra_simps)
    moreover have "0 \<le> nalloc arr * elt_size arr" "0 \<le> elt_size arr * (grown arr - nalloc arr)"
      using es na g by simp_all
    ultimately show ?thesis by (simp add: nat_add_distrib)
  qed
  have b1: "write_at (replicate ?n None) 0 ?old = ?old @ replicate ?z None"
    using lo sum by (simp add: write_at_front)
  show ?thesis
    using full e
    by (simp add: xm_array_push_noclear_def xm_palloc_def memcpy_def Let_def nth_append b1
        grown_def [symmetric])
qed


lemma push_props:
  assumes ok: "array_ok h arr"
    and push: "push = xm_array_push \<or> push = xm_array_push_noclear"
    and r: "push h arr = (h', arr', q)"
  shows "nelts arr' = nelts arr + 1"
    and "nalloc arr' = (if nelts arr = nalloc arr then grown arr else nalloc arr)"
    and "elt_size arr' = elt_size arr"
    and "take (nat (nelts arr * elt_size arr)) (h' ! elts arr') =
         take (nat (nelts arr * elt_size arr)) (h ! elts arr)"
    and "array_ok h' arr'"
    and "q = (elts arr', nat (elt_size arr * nelts arr))"
    and "take (length h) h' = h"
    and "elts arr' = (if nelts arr = nalloc arr then length h else elts arr)"
proof -
  from ok have e: "elts arr < length h" and es: "0 \<le> elt_size arr" and ne: "0 \<le> nelts arr"
    and na: "nelts arr \<le> nalloc arr"
    and len: "nalloc arr * elt_size arr \<le> int (length (h ! elts arr))"
    by (simp_all add: array_ok_def)
  let ?old = "take (nat (nalloc arr * elt_size arr)) (h ! elts arr)"
  let ?z = "nat (elt_size arr * (grown arr - nalloc arr))"
  have lo: "length ?old = nat (nalloc arr * elt_size arr)" using len by simp
  have all: "nelts arr' = nelts arr + 1 \<and>
     nalloc arr' = (if nelts arr = nalloc arr then grown arr else nalloc arr) \<and>
     elt_size arr' = elt_size arr \<and>
     take (nat (nelts arr * elt_size arr)) (h' ! elts arr') =
         take (nat (nelts arr * elt_size arr)) (h ! elts arr) \<and>
     array_ok h' arr' \<and>
     q = (elts arr', nat (elt_size arr * nelts arr)) \<and>
     take (length h) h' = h \<and>
     elts arr' = (if nelts arr = nalloc arr then length h else elts arr)"
  proof (cases "nelts arr = nalloc arr")
    case False
    with push r push_not_full [OF False, of h]
    have "h' = h" "arr' = arr\<lparr>nelts := nelts arr + 1\<rparr>" "q = (elts arr, nat (elt_size arr * nelts arr))"
      by auto
    with False ok show ?thesis
      by (auto simp add: array_ok_def)
  next
    case True
    have "\<exists>fill. h' = h @ [?old @ replicate ?z fill] \<and>
        arr' = arr\<lparr>elts := length h, nalloc := grown arr, nelts := nelts arr + 1\<rparr> \<and>
        q = (length h, nat (elt_size arr * nelts arr))"
      using push
    proof
      assume "push = xm_array_push"
      with r push_full [OF ok True] show ?thesis
        by (intro exI [of _ "Some 0"]) simp
    next
      assume "push = xm_array_push_noclear"
      with r push_noclear_full [OF ok True] show ?thesis
        by (intro exI [of _ None]) simp
    qed
    then obtain fill where h': "h' = h @ [?old @ replicate ?z fill]"
      and arr': "arr' = arr\<lparr>elts := length h, nalloc := grown arr, nelts := nelts arr + 1\<rparr>"
      and q: "q = (length h, nat (elt_size arr * nelts arr))"
      by blast
    from ne na True have g1: "nalloc arr + 1 \<le> grown arr" by (simp add: grown_def)
    have "grown arr * elt_size arr = nalloc arr * elt_size arr + elt_size arr * (grown arr - nalloc arr)"
      by (simp add: algebra_simps)
    moreover have "0 \<le> nalloc arr * elt_size arr" "0 \<le> elt_size arr * (grown arr - nalloc arr)"
      using es ne na g1 by simp_all
    ultimately have blk: "grown arr * elt_size arr \<le> int (length (?old @ replicate ?z fill))"
      using lo by simp
    from True have "take (nat (nelts arr * elt_size arr)) (?old @ replicate ?z fill) =
        take (nat (nelts arr * elt_size arr)) (h ! elts arr)"
      using lo by simp
    with True h' arr' q es ne g1 blk show ?thesis
      by (simp add: array_ok_def)
  qed
  from all show "nelts arr' = nelts arr + 1"
    and "nalloc arr' = (if nelts arr = nalloc arr then grown arr else nalloc arr)"
    and "elt_size arr' = elt_size arr"
    and "take (nat (nelts arr * elt_size arr)) (h' ! elts arr') =
         take (nat (nelts arr * elt_size arr)) (h ! elts arr)"
    and "array_ok h' arr'"
    and "q = (elts arr', nat (elt_size arr * nelts arr))"
    and "take (length h) h' = h"
    and "elts arr' = (if nelts arr = nalloc arr then length h else elts arr)"
    by blast+
qed

lemma write_at_take:
  "off + length ys \<le> length xs \<Longrightarrow>
   length (write_at xs off ys) = length xs \<and>
   take (off + length ys) (write_at xs off ys) = take off xs @ ys"
  by (simp add: write_at_def)

lemma store_last:
  assumes ok: "array_ok h arr" and n: "1 \<le> nelts arr"
    and v: "int (length v) = elt_size arr"
  shows "array_ok (store h (elts arr, nat (elt_size arr * (nelts arr - 1))) v) arr"
    and "active_bytes (store h (elts arr, nat (elt_size arr * (nelts arr - 1))) v) arr =
         take (nat ((nelts arr - 1) * elt_size arr)) (h ! elts arr) @ map Some v"
proof -
  let ?off = "nat (elt_size arr * (nelts arr - 1))"
  let ?blk = "h ! elts arr"
  from ok have e: "elts arr < length h" and es: "0 \<le> elt_size arr"
    and na: "nelts arr \<le> nalloc arr"
    and len: "nalloc arr * elt_size arr \<le> int (length ?blk)"
    by (simp_all add: array_ok_def)
  have "elt_size arr * (nelts arr - 1) + elt_size arr = nelts arr * elt_size arr"
    by (simp add: algebra_simps)
  moreover have "0 \<le> elt_size arr * (nelts arr - 1)" using es n by simp
  ultimately have sum: "?off + length (map Some v) = nat (nelts arr * elt_size arr)"
    using v es by (simp add: nat_add_distrib [symmetric])
  have "nelts arr * elt_size arr \<le> nalloc arr * elt_size arr"
    using na es by (simp add: mult_right_mono)
  with len have fit: "?off + length (map Some v) \<le> length ?blk"
    unfolding sum by simp
  note w = write_at_take [OF fit]
  from w e ok show "array_ok (store h (elts arr, ?off) v) arr"
    by (simp add: store_def array_ok_def)
  from w e show "active_bytes (store h (elts arr, ?off) v) arr =
         take (nat ((nelts arr - 1) * elt_size arr)) ?blk @ map Some v"
    unfolding active_bytes_def store_def sum [symmetric]
    by (simp add: mult.commute)
qed

lemma push_all_spec:
  assumes push: "push = xm_array_push \<or> push = xm_array_push_noclear"
  shows "array_ok h arr \<Longrightarrow> \<forall>v\<in>set vs. int (length v) = elt_size arr \<Longrightarrow>
     push_all push h arr vs = (h', arr') \<Longrightarrow>
     nelts arr' = nelts arr + int (length vs) \<and>
     active_bytes h' arr' = active_bytes h arr @ map Some (concat vs) \<and>
     array_ok h' arr' \<and> elt_size arr' = elt_size arr"
proof (induction vs arbitrary: h arr)
  case Nil
  then show ?case by simp
next
  case (Cons v vs)
  obtain h1 arr1 q where r: "push h arr = (h1, arr1, q)"
    by (cases "push h arr")
  note pp = push_props [OF Cons.prems(1) push r]
  from Cons.prems(1) have "0 \<le> nelts arr" by (simp add: array_ok_def)
  with pp(1) have n1: "1 \<le> nelts arr1" by simp
  from Cons.prems(2) pp(3) have v: "int (length v) = elt_size arr1" by simp
  from pp(1,3,6) have q: "q = (elts arr1, nat (elt_size arr1 * (nelts arr1 - 1)))" by simp
  note st = store_last [OF pp(5) n1 v]
  from Cons.prems(2) pp(3) have vs: "\<forall>v\<in>set vs. int (length v) = elt_size arr1" by simp
  from Cons.prems(3) r have "push_all push (store h1 q v) arr1 vs = (h', arr')" by simp
  note ih = Cons.IH [OF st(1) [folded q] vs this]
  from pp(1) have "nelts arr1 - 1 = nelts arr" by simp
  with st(2) [folded q] pp(3,4)
  have ab1: "active_bytes (store h1 q v) arr1 = active_bytes h arr @ map Some v"
    by (simp add: active_bytes_def [of h arr])
  from ih pp(1,3) show ?case
    by (simp add: ab1)
qed




text \<open>
  Claim C9. For a well-formed array \<open>A\<close>: the header that \<open>copy_header\<close> gives has a
  capacity equal to its count, so a push on it takes new storage; the push, and the
  write of the pushed element, leave the block of \<open>A\<close>, and with it every element of
  \<open>A\<close>, byte for byte as it was.
\<close>

theorem copy_hdr_push_isolated:
  assumes "array_ok h arr"
    and "push = xm_array_push \<or> push = xm_array_push_noclear"
  shows "nalloc (xm_array_copy_hdr raw p arr) = nelts (xm_array_copy_hdr raw p arr) \<and>
         elts (xm_array_copy_hdr raw p arr) = elts arr \<and>
         (case push h (xm_array_copy_hdr raw p arr) of (h', res, q) \<Rightarrow>
            elts res \<noteq> elts arr \<and> fst q \<noteq> elts arr \<and>
            h' ! elts arr = h ! elts arr \<and>
            store h' q v ! elts arr = h ! elts arr \<and>
            array_elt h' arr i = array_elt h arr i \<and>
            array_elt (store h' q v) arr i = array_elt h arr i)"
proof -
  let ?c = "xm_array_copy_hdr raw p arr"
  have c: "nalloc ?c = nelts arr" "nelts ?c = nelts arr" "elts ?c = elts arr"
      "elt_size ?c = elt_size arr"
    by (simp_all add: xm_array_copy_hdr_def copy_array_hdr_core_def)
  from assms(1) have e: "elts arr < length h" and es: "0 \<le> elt_size arr"
    and na: "nelts arr \<le> nalloc arr"
    and len: "nalloc arr * elt_size arr \<le> int (length (h ! elts arr))"
    by (simp_all add: array_ok_def)
  from na es have "nelts arr * elt_size arr \<le> nalloc arr * elt_size arr"
    by (simp add: mult_right_mono)
  with assms(1) len have okc: "array_ok h ?c"
    by (simp add: array_ok_def c)
  obtain h' res q where r: "push h ?c = (h', res, q)"
    by (cases "push h ?c")
  note pp = push_props [OF okc assms(2) r]
  from pp(8) c have res: "elts res = length h" by simp
  with pp(6) have q: "fst q = length h" by simp
  from pp(7) e have same: "h' ! elts arr = h ! elts arr"
    by (metis nth_take)
  from q e have st: "store h' q v ! elts arr = h' ! elts arr"
    by (simp add: store_def)
  from res q e same st show ?thesis
    by (simp add: r c array_elt_def load_def)
qed

theorem copy_hdr_push_isolated_witness:
  "array_ok (fst (push_all xm_array_push heap2 arr2 [[1, 2], [3, 4]]))
     (snd (push_all xm_array_push heap2 arr2 [[1, 2], [3, 4]])) \<and>
   fst (xm_array_push (fst (push_all xm_array_push heap2 arr2 [[1, 2], [3, 4]]))
      (xm_array_copy_hdr arr2 7 (snd (push_all xm_array_push heap2 arr2 [[1, 2], [3, 4]]))))
     ! elts (snd (push_all xm_array_push heap2 arr2 [[1, 2], [3, 4]])) =
   fst (push_all xm_array_push heap2 arr2 [[1, 2], [3, 4]])
     ! elts (snd (push_all xm_array_push heap2 arr2 [[1, 2], [3, 4]]))"
proof -
  have ok0: "array_ok heap2 arr2"
    by (simp add: array_ok_def heap2_def arr2_def)
  have vs: "\<forall>v\<in>set [[1, 2], [3, 4 :: byte]]. int (length v) = elt_size arr2"
    by (simp add: arr2_def)
  obtain h a where pa: "push_all xm_array_push heap2 arr2 [[1, 2], [3, 4]] = (h, a)"
    by (cases "push_all xm_array_push heap2 arr2 [[1, 2], [3, 4]]")
  from push_all_spec [OF disjI1 [OF refl] ok0 vs pa] have ok: "array_ok h a" by simp
  obtain h' res q where r: "xm_array_push h (xm_array_copy_hdr arr2 7 a) = (h', res, q)"
    by (cases "xm_array_push h (xm_array_copy_hdr arr2 7 a)")
  from copy_hdr_push_isolated [OF ok disjI1 [OF refl], of arr2 7 "[]" 0]
  have "h' ! elts a = h ! elts a"
    by (simp add: r)
  with ok show ?thesis
    by (simp add: pa r del: push_all.simps)
qed

section \<open>Compressing a table\<close>










end
